theory Spec2Isabelle
  imports Complex_Main
begin

section \<open>Data model (src/models/schema.py, src/config.py, src/analysis/frames.py)\<close>

text \<open>
  A Python float (timestamp, threshold, duration, confidence) is the \<^typ>\<open>real\<close> number
  it stands for, and a comparison of two floats is the comparison of these numbers. A
  float operation rounds its exact result to the nearest double: \<open>fl\<close> below.
  The rounding is written out where the result decides what is returned: the duration
  tests of both detectors, the confidence of a static segment and the threshold count of
  the tag extraction. The sums and products that remain exact are named where they occur.
  A float literal of the source is written as the decimal fraction it spells.
  Python ints are \<^typ>\<open>int\<close>, strings are \<^typ>\<open>string\<close>. Every exception the modelled
  code can raise is a value of \<open>py_error\<close>, and a fallible function returns
  \<open>py_error + 'a\<close>.
\<close>

datatype py_error = ZeroDivisionError | ValueError | ValidationError

datatype StaticReason = PRE_ARM | POST_LAND | DVR_FREEZE | SIGNAL_LOSS | UNKNOWN

text \<open>The analysis parameters of \<open>Settings\<close>, with their declared defaults.\<close>

record Settings =
  cfg_static_threshold :: real
  cfg_min_static_duration :: real
  cfg_highlight_score_threshold :: int
  cfg_highlight_min_duration :: real
  cfg_tag_frequency_threshold :: real

definition settings :: Settings where
  "settings = \<lparr>cfg_static_threshold = 2 / 100, cfg_min_static_duration = 1,
     cfg_highlight_score_threshold = 7, cfg_highlight_min_duration = 5,
     cfg_tag_frequency_threshold = 2 / 10\<rparr>"

record Frame =
  frame_timestamp :: real
  image_path :: string

record StaticSegment =
  seg_start :: real
  seg_end :: real
  reason :: StaticReason
  confidence :: real

record Highlight =
  hl_start :: real
  hl_end :: real
  score :: int
  hl_description :: string
  hl_tags :: "string list"

record FrameAnalysis =
  timestamp :: real
  description :: string
  environment :: "string list"
  flight_style :: string
  interest_score :: int
  quality_issues :: "string list"

record QualityMetadata =
  overall_score :: int
  issues :: "string list"
  dvr_artifacts_detected :: bool
  signal_loss_segments :: "(real \<times> real) list"

text \<open>
  The pydantic field constraints: \<open>confidence: float = Field(ge=0.0, le=1.0)\<close>,
  \<open>score: int = Field(ge=1, le=10)\<close>, \<open>overall_score: int = Field(ge=1, le=10)\<close>.
  Constructing a model with a value outside its range raises a validation error.
\<close>

definition mk_StaticSegment ::
  "real \<Rightarrow> real \<Rightarrow> StaticReason \<Rightarrow> real \<Rightarrow> py_error + StaticSegment" where
  "mk_StaticSegment s e r c =
     (if 0 \<le> c \<and> c \<le> 1
      then Inr \<lparr>seg_start = s, seg_end = e, reason = r, confidence = c\<rparr>
      else Inl ValidationError)"

definition mk_Highlight ::
  "real \<Rightarrow> real \<Rightarrow> int \<Rightarrow> string \<Rightarrow> string list \<Rightarrow> py_error + Highlight" where
  "mk_Highlight s e sc d ts =
     (if 1 \<le> sc \<and> sc \<le> 10
      then Inr \<lparr>hl_start = s, hl_end = e, score = sc, hl_description = d, hl_tags = ts\<rparr>
      else Inl ValidationError)"

definition mk_QualityMetadata ::
  "int \<Rightarrow> string list \<Rightarrow> bool \<Rightarrow> (real \<times> real) list \<Rightarrow> py_error + QualityMetadata" where
  "mk_QualityMetadata sc iss dvr sl =
     (if 1 \<le> sc \<and> sc \<le> 10
      then Inr \<lparr>overall_score = sc, issues = iss, dvr_artifacts_detected = dvr,
                signal_loss_segments = sl\<rparr>
      else Inl ValidationError)"

text \<open>\<open>QualityMetadata()\<close>: every field takes its declared default.\<close>

definition QualityMetadata_default :: QualityMetadata where
  "QualityMetadata_default =
     \<lparr>overall_score = 5, issues = [], dvr_artifacts_detected = False,
      signal_loss_segments = []\<rparr>"

text \<open>A record the schema accepts has its interest score in 1..10.\<close>

definition valid_record :: "FrameAnalysis \<Rightarrow> bool" where
  "valid_record fa \<longleftrightarrow> 1 \<le> interest_score fa \<and> interest_score fa \<le> 10"

section \<open>Float arithmetic\<close>

text \<open>
  Rounding to the nearest IEEE 754 double, ties to the even significand. \<open>bitlen n\<close>
  is the number of binary digits of \<open>n\<close>; for a positive \<open>x\<close>, \<open>binade x\<close> is the
  exponent \<open>e\<close> with \<open>2 ^ e \<le> x < 2 ^ (e + 1)\<close>. A double has 53 significant bits,
  so the doubles next to \<open>x\<close> are the multiples of \<open>2 ^ (e - 52)\<close>; below the
  smallest normal exponent -1022 the spacing stays that of the subnormal numbers. There
  are no infinities here: a result beyond the largest double is rounded on the same grid.
  \<open>a - b\<close> on floats is \<open>fl (a - b)\<close>, and likewise for the other operations.
\<close>

fun bitlen :: "nat \<Rightarrow> nat" where
  "bitlen n = (if n = 0 then 0 else Suc (bitlen (n div 2)))"

declare bitlen.simps [simp del]

definition binade :: "real \<Rightarrow> int" where
  "binade x =
     (if 1 \<le> x then int (bitlen (nat \<lfloor>x\<rfloor>)) - 1
      else - int (bitlen (nat \<lceil>1 / x\<rceil> - 1)))"

definition round_even :: "real \<Rightarrow> int" where
  "round_even r =
     (let f = \<lfloor>r\<rfloor> in
      if r - of_int f < 1 / 2 then f
      else if 1 / 2 < r - of_int f then f + 1
      else if even f then f else f + 1)"

definition fl :: "real \<Rightarrow> real" where
  "fl x =
     (if x = 0 then 0
      else
        (let e = max (binade \<bar>x\<bar>) (- 1022);
             ulp = 2 powi (e - 52)
         in of_int (round_even (x / ulp)) * ulp))"

section \<open>Python helpers\<close>

text \<open>\<open>x or d\<close> on an optional number: \<open>None\<close> and \<open>0\<close> are both falsy.\<close>

definition py_or :: "'a::zero option \<Rightarrow> 'a \<Rightarrow> 'a" where
  "py_or x d = (case x of None \<Rightarrow> d | Some v \<Rightarrow> if v = 0 then d else v)"

text \<open>A \<open>for\<close> loop over a list whose body may raise: the first error ends the loop.\<close>

fun fold_err :: "('a \<Rightarrow> 's \<Rightarrow> 'e + 's) \<Rightarrow> 'a list \<Rightarrow> 's \<Rightarrow> 'e + 's" where
  "fold_err f [] s = Inr s"
| "fold_err f (x # xs) s = (case f x s of Inl e \<Rightarrow> Inl e | Inr s' \<Rightarrow> fold_err f xs s')"

section \<open>Static segment detection (src/analysis/static.py)\<close>

record StaticDetector =
  threshold :: real
  min_duration :: real

text \<open>\<open>StaticDetector.__init__\<close>, reading the defaults from a settings object.\<close>

definition StaticDetector_init :: "Settings \<Rightarrow> real option \<Rightarrow> real option \<Rightarrow> StaticDetector" where
  "StaticDetector_init cfg thr md =
     \<lparr>threshold = py_or thr (cfg_static_threshold cfg),
      min_duration = py_or md (cfg_min_static_duration cfg)\<rparr>"

text \<open>The difference \<open>video_duration - 30\<close> is taken exactly.\<close>

definition classify_static :: "real \<Rightarrow> real \<Rightarrow> real \<Rightarrow> StaticReason" where
  "classify_static start end' video_duration =
     (if start < 30 then PRE_ARM
      else if end' > video_duration - 30 then POST_LAND
      else DVR_FREEZE)"

record static_state =
  segments :: "StaticSegment list"
  in_static :: bool
  static_start :: real

text \<open>
  The confidence of a segment closed by an exit sample:
  \<open>confidence = 1.0 - (diff / self.threshold)\<close>, then
  \<open>confidence = max(0.0, min(1.0, confidence))\<close>. The dissimilarity is a numpy float, so
  a division by the threshold 0 does not raise: the quotient is \<open>inf\<close> for a positive
  dissimilarity, and the clamp of \<open>1.0 - inf\<close> is 0; it is \<open>nan\<close> for the dissimilarity
  0 and \<open>-inf\<close> for a negative one, and then \<open>min(1.0, _)\<close> keeps 1.0 and the clamp
  is 1.
\<close>

definition exit_confidence :: "real \<Rightarrow> real \<Rightarrow> real" where
  "exit_confidence diff thr =
     (if thr = 0 then (if 0 < diff then 0 else 1)
      else
        (let confidence = fl (1 - fl (diff / thr))
         in max 0 (min 1 confidence)))"

text \<open>
  The body of \<open>for i in range(1, len(frames))\<close>. The frame comparison
  \<open>compute_frame_difference\<close> (SSIM over image data) is the parameter \<open>cfd\<close>.
\<close>

definition static_step ::
  "StaticDetector \<Rightarrow> (Frame \<Rightarrow> Frame \<Rightarrow> real) \<Rightarrow> real \<Rightarrow> Frame list \<Rightarrow> nat \<Rightarrow>
     static_state \<Rightarrow> py_error + static_state" where
  "static_step self cfd video_duration frames i st =
     (let diff = cfd (frames ! (i - 1)) (frames ! i) in
      if diff < threshold self then
        (if \<not> in_static st
         then Inr (st\<lparr>in_static := True, static_start := frame_timestamp (frames ! (i - 1))\<rparr>)
         else Inr st)
      else
        (if in_static st then
           (let static_end = frame_timestamp (frames ! i);
                duration = fl (static_end - static_start st) in
            if duration \<ge> min_duration self then
              (let reason = classify_static (static_start st) static_end video_duration;
                   confidence = exit_confidence diff (threshold self) in
               case mk_StaticSegment (static_start st) static_end reason confidence of
                 Inl e \<Rightarrow> Inl e
               | Inr segment \<Rightarrow>
                   Inr (st\<lparr>segments := segments st @ [segment], in_static := False\<rparr>))
            else Inr (st\<lparr>in_static := False\<rparr>))
         else Inr st))"

definition static_loop ::
  "StaticDetector \<Rightarrow> (Frame \<Rightarrow> Frame \<Rightarrow> real) \<Rightarrow> real \<Rightarrow> Frame list \<Rightarrow>
     py_error + static_state" where
  "static_loop self cfd video_duration frames =
     fold_err (static_step self cfd video_duration frames) [1..<length frames]
       \<lparr>segments = [], in_static = False, static_start = 0\<rparr>"

text \<open>The part after the loop: \<open>Handle case where video ends in static\<close>.\<close>

definition static_finish ::
  "StaticDetector \<Rightarrow> real \<Rightarrow> Frame list \<Rightarrow> static_state \<Rightarrow> py_error + StaticSegment list" where
  "static_finish self video_duration frames st =
     (if in_static st then
        (let static_end = frame_timestamp (last frames);
             duration = fl (static_end - static_start st) in
         if duration \<ge> min_duration self then
           (let reason = classify_static (static_start st) static_end video_duration in
            case mk_StaticSegment (static_start st) static_end reason (9 / 10) of
              Inl e \<Rightarrow> Inl e
            | Inr segment \<Rightarrow> Inr (segments st @ [segment]))
         else Inr (segments st))
      else Inr (segments st))"

definition detect_static_segments ::
  "StaticDetector \<Rightarrow> (Frame \<Rightarrow> Frame \<Rightarrow> real) \<Rightarrow> Frame list \<Rightarrow> real \<Rightarrow>
     py_error + StaticSegment list" where
  "detect_static_segments self cfd frames video_duration =
     (if length frames < 2 then Inr []
      else case static_loop self cfd video_duration frames of
             Inl e \<Rightarrow> Inl e
           | Inr st \<Rightarrow> static_finish self video_duration frames st)"

section \<open>Aggregation (src/analysis/aggregation.py)\<close>

subsection \<open>Library operations\<close>

text \<open>
  A \<open>Counter\<close> keeps its keys in the order of their first insertion; it is an
  association list in that order. A key that is absent counts 0.
\<close>

type_synonym 'a Counter = "('a \<times> int) list"

fun counter_incr :: "'a \<Rightarrow> 'a Counter \<Rightarrow> 'a Counter" where
  "counter_incr k [] = [(k, 1)]"
| "counter_incr k ((k', c) # rest) =
     (if k = k' then (k', c + 1) # rest else (k', c) # counter_incr k rest)"

definition counter_get :: "'a Counter \<Rightarrow> 'a \<Rightarrow> int" where
  "counter_get c k = (case map_of c k of None \<Rightarrow> 0 | Some n \<Rightarrow> n)"

text \<open>\<open>int(x)\<close> on a float truncates towards zero.\<close>

definition py_int :: "real \<Rightarrow> int" where
  "py_int x = (if x \<ge> 0 then \<lfloor>x\<rfloor> else \<lceil>x\<rceil>)"

text \<open>
  \<open>xs.sort(key=k, reverse=True)\<close> and \<open>sorted(xs, key=k, reverse=True)\<close>: descending
  by key, and stable (elements with equal keys keep their order).
\<close>

definition sort_desc :: "('a \<Rightarrow> int) \<Rightarrow> 'a list \<Rightarrow> 'a list" where
  "sort_desc k xs = sort_key (\<lambda>x. - k x) xs"

definition most_common :: "nat \<Rightarrow> 'a Counter \<Rightarrow> 'a Counter" where
  "most_common n c = take n (sort_desc snd c)"

text \<open>\<open>max(xs, key=k)\<close>: the first element with the greatest key; raises on an empty list.\<close>

definition py_max_key :: "('a \<Rightarrow> int) \<Rightarrow> 'a list \<Rightarrow> py_error + 'a" where
  "py_max_key k xs =
     (case xs of [] \<Rightarrow> Inl ValueError
      | x # rest \<Rightarrow> Inr (fold (\<lambda>y best. if k y > k best then y else best) rest x))"

text \<open>
  \<open>s.lower()\<close>: the 26 ASCII capital letters are replaced by their lower-case
  letters, every other character is kept (characters are bytes here). Then the
  substring test \<open>sub in s\<close>.
\<close>

definition lower_char :: "char \<Rightarrow> char" where
  "lower_char c =
     (case map_of (zip ''ABCDEFGHIJKLMNOPQRSTUVWXYZ'' ''abcdefghijklmnopqrstuvwxyz'') c of
        None \<Rightarrow> c
      | Some l \<Rightarrow> l)"

definition lower :: "string \<Rightarrow> string" where
  "lower s = map lower_char s"

fun starts_with :: "string \<Rightarrow> string \<Rightarrow> bool" where
  "starts_with [] s = True"
| "starts_with (a # as) [] = False"
| "starts_with (a # as) (b # bs) = (a = b \<and> starts_with as bs)"

fun contains :: "string \<Rightarrow> string \<Rightarrow> bool" where
  "contains sub [] = (sub = [])"
| "contains sub (c # cs) = (starts_with sub (c # cs) \<or> contains sub cs)"

subsection \<open>The aggregator\<close>

record Aggregator =
  tag_threshold :: real
  highlight_score_threshold :: int
  highlight_min_duration :: real

text \<open>\<open>Aggregator.__init__\<close>, reading the defaults from a settings object.\<close>

definition Aggregator_init ::
  "Settings \<Rightarrow> real option \<Rightarrow> int option \<Rightarrow> real option \<Rightarrow> Aggregator" where
  "Aggregator_init cfg tt hst hmd =
     \<lparr>tag_threshold = py_or tt (cfg_tag_frequency_threshold cfg),
      highlight_score_threshold = py_or hst (cfg_highlight_score_threshold cfg),
      highlight_min_duration = py_or hmd (cfg_highlight_min_duration cfg)\<rparr>"

text \<open>
  The tally of one record, as both \<open>extract_tags\<close> and \<open>_create_highlight\<close> write it:
  every environment tag, then the flight style if it is non-empty and neither
  \<open>unknown\<close> nor \<open>stationary\<close>.
\<close>

definition tally_record :: "FrameAnalysis \<Rightarrow> string Counter \<Rightarrow> string Counter" where
  "tally_record fa tag_counter =
     (let tag_counter = fold counter_incr (environment fa) tag_counter in
      if flight_style fa \<noteq> [] \<and> flight_style fa \<notin> set [''unknown'', ''stationary'']
      then counter_incr (flight_style fa) tag_counter
      else tag_counter)"

text \<open>
  \<open>int(total_frames * self.tag_threshold)\<close>: the length of the list becomes a float
  without rounding, the product is rounded, and \<open>int\<close> truncates it.
\<close>

definition extract_tags :: "Aggregator \<Rightarrow> FrameAnalysis list \<Rightarrow> string list" where
  "extract_tags self frame_analyses =
     (if frame_analyses = [] then []
      else
        (let tag_counter = fold tally_record frame_analyses [];
             total_frames = int (length frame_analyses);
             threshold_count = py_int (fl (of_int total_frames * tag_threshold self));
             tags = map fst (filter (\<lambda>(tag, count). count \<ge> threshold_count) tag_counter)
         in sort_desc (counter_get tag_counter) tags))"

definition create_highlight ::
  "real \<Rightarrow> real \<Rightarrow> FrameAnalysis list \<Rightarrow> py_error + Highlight" where
  "create_highlight start end' frames =
     (if length frames = 0 then Inl ZeroDivisionError
      else
        (let avg_score = sum_list (map interest_score frames) div int (length frames);
             tag_counter = fold tally_record frames [];
             top_tags = map fst (most_common 5 tag_counter)
         in case py_max_key interest_score frames of
              Inl e \<Rightarrow> Inl e
            | Inr best_frame \<Rightarrow>
                mk_Highlight start end' avg_score (description best_frame) top_tags))"

record highlight_state =
  highlights :: "Highlight list"
  in_highlight :: bool
  highlight_start :: real
  highlight_frames :: "FrameAnalysis list"

text \<open>
  \<open>frame_analyses[i - 1]\<close> inside the loop: index \<open>-1\<close> (at \<open>i = 0\<close>) is the last
  element of the list.
\<close>

definition index_prev :: "'a list \<Rightarrow> nat \<Rightarrow> 'a" where
  "index_prev xs i = (if i = 0 then last xs else xs ! (i - 1))"

text \<open>The body of \<open>for i, fa in enumerate(frame_analyses)\<close>.\<close>

definition highlight_step ::
  "Aggregator \<Rightarrow> FrameAnalysis list \<Rightarrow> nat \<times> FrameAnalysis \<Rightarrow> highlight_state \<Rightarrow>
     py_error + highlight_state" where
  "highlight_step self frame_analyses p st =
     (case p of (i, fa) \<Rightarrow>
      if interest_score fa \<ge> highlight_score_threshold self then
        (if \<not> in_highlight st
         then Inr (st\<lparr>in_highlight := True, highlight_start := timestamp fa,
                       highlight_frames := [fa]\<rparr>)
         else Inr (st\<lparr>highlight_frames := highlight_frames st @ [fa]\<rparr>))
      else
        (if in_highlight st then
           (let highlight_end = timestamp (index_prev frame_analyses i);
                duration = fl (highlight_end - highlight_start st) in
            if duration \<ge> highlight_min_duration self then
              (case create_highlight (highlight_start st) highlight_end (highlight_frames st) of
                 Inl e \<Rightarrow> Inl e
               | Inr highlight \<Rightarrow>
                   Inr (st\<lparr>highlights := highlights st @ [highlight], in_highlight := False,
                            highlight_frames := []\<rparr>))
            else Inr (st\<lparr>in_highlight := False, highlight_frames := []\<rparr>))
         else Inr st))"

definition highlight_loop ::
  "Aggregator \<Rightarrow> FrameAnalysis list \<Rightarrow> py_error + highlight_state" where
  "highlight_loop self frame_analyses =
     fold_err (highlight_step self frame_analyses) (enumerate 0 frame_analyses)
       \<lparr>highlights = [], in_highlight = False, highlight_start = 0, highlight_frames = []\<rparr>"

text \<open>The part after the loop: \<open>Handle case where video ends in a highlight\<close>.\<close>

definition highlight_finish ::
  "Aggregator \<Rightarrow> FrameAnalysis list \<Rightarrow> highlight_state \<Rightarrow> py_error + Highlight list" where
  "highlight_finish self frame_analyses st =
     (if in_highlight st then
        (let highlight_end = timestamp (last frame_analyses);
             duration = fl (highlight_end - highlight_start st) in
         if duration \<ge> highlight_min_duration self then
           (case create_highlight (highlight_start st) highlight_end (highlight_frames st) of
              Inl e \<Rightarrow> Inl e
            | Inr highlight \<Rightarrow> Inr (highlights st @ [highlight]))
         else Inr (highlights st))
      else Inr (highlights st))"

definition detect_highlights ::
  "Aggregator \<Rightarrow> FrameAnalysis list \<Rightarrow> py_error + Highlight list" where
  "detect_highlights self frame_analyses =
     (if frame_analyses = [] then Inr []
      else case highlight_loop self frame_analyses of
             Inl e \<Rightarrow> Inl e
           | Inr st \<Rightarrow> highlight_finish self frame_analyses st)"

subsection \<open>Quality assessment\<close>

definition dvr_issue :: "string \<Rightarrow> bool" where
  "dvr_issue issue \<longleftrightarrow> contains ''dvr'' (lower issue) \<or> contains ''artifact'' (lower issue)"

definition signal_issue :: "string \<Rightarrow> bool" where
  "signal_issue issue \<longleftrightarrow> contains ''signal'' (lower issue) \<or> contains ''loss'' (lower issue)"

record quality_state =
  issue_counter :: "string Counter"
  dvr_detected :: bool
  signal_loss :: "(real \<times> real) list"

text \<open>
  The body of the inner loop \<open>for issue in fa.quality_issues\<close>. The sum
  \<open>fa.timestamp + 1.0\<close> is taken exactly.
\<close>

definition issue_step :: "FrameAnalysis \<Rightarrow> string \<Rightarrow> quality_state \<Rightarrow> quality_state" where
  "issue_step fa issue st =
     (let st = st\<lparr>issue_counter := counter_incr issue (issue_counter st)\<rparr>;
          st = (if dvr_issue issue then st\<lparr>dvr_detected := True\<rparr> else st)
      in if signal_issue issue
         then st\<lparr>signal_loss := signal_loss st @ [(timestamp fa, timestamp fa + 1)]\<rparr>
         else st)"

definition collect_issues :: "FrameAnalysis list \<Rightarrow> quality_state" where
  "collect_issues frame_analyses =
     fold (\<lambda>fa st. fold (issue_step fa) (quality_issues fa) st) frame_analyses
       \<lparr>issue_counter = [], dvr_detected = False, signal_loss = []\<rparr>"

text \<open>One pass of the \<open>if\<close>/\<open>elif\<close> chain that deducts points for an issue.\<close>

definition deduct :: "string \<Rightarrow> int \<Rightarrow> int" where
  "deduct issue score' =
     (if contains ''blur'' (lower issue) then score' - 2
      else if contains ''artifact'' (lower issue) \<or> contains ''dvr'' (lower issue)
        then score' - 3
      else if contains ''signal'' (lower issue) \<or> contains ''loss'' (lower issue)
        then score' - 4
      else if contains ''fog'' (lower issue) \<or> contains ''weather'' (lower issue)
        then score' - 1
      else score')"

definition score_issues :: "string list \<Rightarrow> int" where
  "score_issues significant_issues =
     (let overall_score = fold deduct significant_issues 10
      in max 1 (min 10 overall_score))"

text \<open>The product \<open>total_frames * 0.1\<close> is taken exactly, as a tenth of the length.\<close>

definition significant :: "FrameAnalysis list \<Rightarrow> string Counter \<Rightarrow> string list" where
  "significant frame_analyses counter =
     (let total_frames = int (length frame_analyses);
          threshold = max 1 (py_int (of_int total_frames * (1 / 10)))
      in map fst (filter (\<lambda>(issue, count). count \<ge> threshold) counter))"

definition assess_quality :: "FrameAnalysis list \<Rightarrow> py_error + QualityMetadata" where
  "assess_quality frame_analyses =
     (if frame_analyses = [] then Inr QualityMetadata_default
      else
        (let st = collect_issues frame_analyses;
             significant_issues = significant frame_analyses (issue_counter st);
             overall_score = score_issues significant_issues
         in mk_QualityMetadata overall_score significant_issues (dvr_detected st)
              (signal_loss st)))"

section \<open>Specification vocabulary\<close>

subsection \<open>Static runs\<close>

text \<open>
  \<open>pair_diff cfd frames k\<close> is the dissimilarity the loop computes at index \<open>k\<close>, between
  sample \<open>k - 1\<close> and sample \<open>k\<close>. A static run \<open>(i, j)\<close> is a maximal stretch of loop
  indices \<open>i, ..., j - 1\<close> whose dissimilarity is below the threshold: it is entered at
  index \<open>i\<close> and either left at index \<open>j\<close> (the exit sample) or \<open>j\<close> is the length of
  the series. \<open>static_emitted\<close> says what the segment emitted for such a run holds.
\<close>

definition pair_diff :: "(Frame \<Rightarrow> Frame \<Rightarrow> real) \<Rightarrow> Frame list \<Rightarrow> nat \<Rightarrow> real" where
  "pair_diff cfd frames k = cfd (frames ! (k - 1)) (frames ! k)"

definition nonneg_diffs :: "(Frame \<Rightarrow> Frame \<Rightarrow> real) \<Rightarrow> Frame list \<Rightarrow> bool" where
  "nonneg_diffs cfd frames \<longleftrightarrow> (\<forall>k\<in>{1..<length frames}. 0 \<le> pair_diff cfd frames k)"

definition static_run ::
  "StaticDetector \<Rightarrow> (Frame \<Rightarrow> Frame \<Rightarrow> real) \<Rightarrow> Frame list \<Rightarrow> nat \<Rightarrow> nat \<Rightarrow> bool" where
  "static_run self cfd frames i j \<longleftrightarrow>
     1 \<le> i \<and> i < j \<and> j \<le> length frames \<and>
     (\<forall>k\<in>{i..<j}. pair_diff cfd frames k < threshold self) \<and>
     (i = 1 \<or> \<not> pair_diff cfd frames (i - 1) < threshold self) \<and>
     (j = length frames \<or> \<not> pair_diff cfd frames j < threshold self)"

definition static_emitted ::
  "StaticDetector \<Rightarrow> (Frame \<Rightarrow> Frame \<Rightarrow> real) \<Rightarrow> real \<Rightarrow> Frame list \<Rightarrow> StaticSegment \<Rightarrow>
     nat \<Rightarrow> nat \<Rightarrow> bool" where
  "static_emitted self cfd video_duration frames s i j \<longleftrightarrow>
     static_run self cfd frames i j \<and>
     seg_start s = frame_timestamp (frames ! (i - 1)) \<and>
     seg_end s = frame_timestamp (frames ! (if j < length frames then j else length frames - 1)) \<and>
     reason s = classify_static (seg_start s) (seg_end s) video_duration \<and>
     confidence s =
       (if j < length frames then exit_confidence (pair_diff cfd frames j) (threshold self)
        else 9 / 10) \<and>
     min_duration self \<le> fl (seg_end s - seg_start s)"

text \<open>The loop invariants: what holds before the iteration at index \<open>k\<close>.\<close>

definition static_inv ::
  "StaticDetector \<Rightarrow> (Frame \<Rightarrow> Frame \<Rightarrow> real) \<Rightarrow> real \<Rightarrow> Frame list \<Rightarrow> nat \<Rightarrow>
     static_state \<Rightarrow> bool" where
  "static_inv self cfd video_duration frames k st \<longleftrightarrow>
     (\<forall>s\<in>set (segments st). \<exists>i j. j < k \<and> static_emitted self cfd video_duration frames s i j) \<and>
     (if in_static st
      then (\<exists>e. 1 \<le> e \<and> e < k \<and> static_start st = frame_timestamp (frames ! (e - 1)) \<and>
              (\<forall>m\<in>{e..<k}. pair_diff cfd frames m < threshold self) \<and>
              (e = 1 \<or> \<not> pair_diff cfd frames (e - 1) < threshold self))
      else (k = 1 \<or> \<not> pair_diff cfd frames (k - 1) < threshold self))"

definition static_ord :: "Frame list \<Rightarrow> nat \<Rightarrow> static_state \<Rightarrow> bool" where
  "static_ord frames k st \<longleftrightarrow>
     sorted_wrt (\<lambda>a b. seg_end a \<le> seg_start b) (segments st) \<and>
     (\<forall>s\<in>set (segments st). seg_start s \<le> seg_end s \<and>
        seg_end s \<le> frame_timestamp (frames ! (k - 1))) \<and>
     (in_static st \<longrightarrow>
        (\<forall>s\<in>set (segments st). seg_end s \<le> static_start st) \<and>
        static_start st \<le> frame_timestamp (frames ! (k - 1)))"

subsection \<open>Highlight runs\<close>

text \<open>
  \<open>slice xs i j\<close> holds the elements \<open>i, ..., j - 1\<close>. A highlight run \<open>(i, j)\<close> is a
  maximal stretch of records \<open>i, ..., j - 1\<close> whose interest score reaches the threshold:
  record \<open>j\<close> is the first one that fails, or \<open>j\<close> is the length of the series.
  \<open>hl_emitted\<close> says which highlight is emitted for such a run.
\<close>

definition slice :: "'a list \<Rightarrow> nat \<Rightarrow> nat \<Rightarrow> 'a list" where
  "slice xs i j = take (j - i) (drop i xs)"

definition hl_run :: "Aggregator \<Rightarrow> FrameAnalysis list \<Rightarrow> nat \<Rightarrow> nat \<Rightarrow> bool" where
  "hl_run self fas i j \<longleftrightarrow>
     i < j \<and> j \<le> length fas \<and>
     (\<forall>k\<in>{i..<j}. highlight_score_threshold self \<le> interest_score (fas ! k)) \<and>
     (i = 0 \<or> \<not> highlight_score_threshold self \<le> interest_score (fas ! (i - 1))) \<and>
     (j = length fas \<or> \<not> highlight_score_threshold self \<le> interest_score (fas ! j))"

definition hl_emitted ::
  "Aggregator \<Rightarrow> FrameAnalysis list \<Rightarrow> Highlight \<Rightarrow> nat \<Rightarrow> nat \<Rightarrow> bool" where
  "hl_emitted self fas h i j \<longleftrightarrow>
     hl_run self fas i j \<and>
     create_highlight (timestamp (fas ! i)) (timestamp (fas ! (j - 1))) (slice fas i j) = Inr h \<and>
     highlight_min_duration self \<le> fl (timestamp (fas ! (j - 1)) - timestamp (fas ! i))"

text \<open>The loop invariants: what holds before the iteration at index \<open>k\<close>.\<close>

definition hl_inv :: "Aggregator \<Rightarrow> FrameAnalysis list \<Rightarrow> nat \<Rightarrow> highlight_state \<Rightarrow> bool" where
  "hl_inv self fas k st \<longleftrightarrow>
     (\<forall>h\<in>set (highlights st). \<exists>i j. j < k \<and> hl_emitted self fas h i j) \<and>
     (if in_highlight st
      then (\<exists>e. e < k \<and> highlight_start st = timestamp (fas ! e) \<and>
              highlight_frames st = slice fas e k \<and>
              (\<forall>m\<in>{e..<k}. highlight_score_threshold self \<le> interest_score (fas ! m)) \<and>
              (e = 0 \<or> \<not> highlight_score_threshold self \<le> interest_score (fas ! (e - 1))))
      else (k = 0 \<or> \<not> highlight_score_threshold self \<le> interest_score (fas ! (k - 1))))"

definition hl_ord :: "FrameAnalysis list \<Rightarrow> nat \<Rightarrow> highlight_state \<Rightarrow> bool" where
  "hl_ord fas k st \<longleftrightarrow>
     sorted_wrt (\<lambda>a b. hl_end a \<le> hl_start b) (highlights st) \<and>
     (\<forall>h\<in>set (highlights st). hl_start h \<le> hl_end h \<and>
        hl_end h \<le> timestamp (fas ! (k - 1))) \<and>
     (in_highlight st \<longrightarrow> 1 \<le> k \<and>
        (\<forall>h\<in>set (highlights st). hl_end h \<le> highlight_start st) \<and>
        highlight_start st \<le> timestamp (fas ! (k - 1)))"

definition hl_ok :: "FrameAnalysis list \<Rightarrow> highlight_state \<Rightarrow> bool" where
  "hl_ok fas st \<longleftrightarrow>
     (in_highlight st \<longrightarrow> highlight_frames st \<noteq> [] \<and> set (highlight_frames st) \<subseteq> set fas)"

text \<open>The floor of the arithmetic mean is taken of \<open>mean\<close>, a real number.\<close>

definition mean :: "int list \<Rightarrow> real" where
  "mean xs = of_int (sum_list xs) / of_nat (length xs)"

text \<open>
  C1 as stated, for the highlight detector: a run left mid-series ends at the first
  sample that fails, as the static detector ends its runs. Every highlight belongs to a
  run \<open>(i, j)\<close>, starts at sample \<open>i\<close> and ends at sample \<open>j\<close> (at the last sample when
  the series ends in the run).
\<close>

definition claimed_highlight_bounds ::
  "Aggregator \<Rightarrow> FrameAnalysis list \<Rightarrow> Highlight list \<Rightarrow> bool" where
  "claimed_highlight_bounds self fas hs \<longleftrightarrow>
     (\<forall>h\<in>set hs. \<exists>i j. hl_run self fas i j \<and>
        hl_start h = timestamp (fas ! i) \<and>
        hl_end h = timestamp (fas ! (if j < length fas then j else length fas - 1)))"

subsection \<open>Tags and quality issues\<close>

text \<open>
  \<open>first_seen xs\<close> lists the distinct elements of \<open>xs\<close> in the order of their first
  occurrence. The observations of a record are what the tally counts for it, in the
  order it counts them: the environment tags, then the flight style unless it is empty,
  \<open>unknown\<close> or \<open>stationary\<close>. \<open>tally fas t\<close> is the number of observations of
  \<open>t\<close> over all records.
\<close>

primrec first_seen :: "'a list \<Rightarrow> 'a list" where
  "first_seen [] = []"
| "first_seen (x # xs) = x # filter (\<lambda>y. y \<noteq> x) (first_seen xs)"

definition counted_style :: "FrameAnalysis \<Rightarrow> bool" where
  "counted_style fa \<longleftrightarrow>
     flight_style fa \<noteq> [] \<and> flight_style fa \<noteq> ''unknown'' \<and> flight_style fa \<noteq> ''stationary''"

definition observations :: "FrameAnalysis \<Rightarrow> string list" where
  "observations fa = environment fa @ (if counted_style fa then [flight_style fa] else [])"

definition tally :: "FrameAnalysis list \<Rightarrow> string \<Rightarrow> int" where
  "tally fas t = (\<Sum>fa\<leftarrow>fas. int (count_list (observations fa) t))"

text \<open>
  C5 as stated: the tally that leaves out only the flight styles \<open>unknown\<close> and
  \<open>stationary\<close>, and the property that the extracted tags are the tallied tags that
  reach the threshold count under it (the product being the float product of the code).
\<close>

definition claimed_tally :: "FrameAnalysis list \<Rightarrow> string \<Rightarrow> int" where
  "claimed_tally fas t =
     (\<Sum>fa\<leftarrow>fas. int (count_list (environment fa) t) +
        (if flight_style fa = t \<and> t \<noteq> ''unknown'' \<and> t \<noteq> ''stationary'' then 1 else 0))"

definition claimed_tags :: "Aggregator \<Rightarrow> FrameAnalysis list \<Rightarrow> bool" where
  "claimed_tags self fas \<longleftrightarrow>
     set (extract_tags self fas) =
       {t. 0 < claimed_tally fas t \<and>
           \<lfloor>fl (of_nat (length fas) * tag_threshold self)\<rfloor> \<le> claimed_tally fas t}"

text \<open>
  The points an issue deducts: the first category that matches, in the order of the
  rubric; the matching is by substring of the lower-cased issue. \<open>issue_count\<close> is the
  number of occurrences of an issue string over all records, and the matching records
  are those with at least one issue string that matches \<open>signal\<close> or \<open>loss\<close>.
\<close>

definition deduction :: "string \<Rightarrow> int" where
  "deduction issue =
     (if contains ''blur'' (lower issue) then 2
      else if contains ''artifact'' (lower issue) \<or> contains ''dvr'' (lower issue) then 3
      else if contains ''signal'' (lower issue) \<or> contains ''loss'' (lower issue) then 4
      else if contains ''fog'' (lower issue) \<or> contains ''weather'' (lower issue) then 1
      else 0)"

definition issue_count :: "FrameAnalysis list \<Rightarrow> string \<Rightarrow> int" where
  "issue_count fas issue = (\<Sum>fa\<leftarrow>fas. int (count_list (quality_issues fa) issue))"


subsection \<open>Example inputs\<close>

text \<open>
  Nine frames; the dissimilarity is high on entering the frames at 40 s, 44 s and 100 s
  and low elsewhere. The detector has the default settings.
\<close>

definition ex_frames :: "Frame list" where
  "ex_frames = map (\<lambda>t. \<lparr>frame_timestamp = t, image_path = []\<rparr>) [0, 2, 4, 40, 42, 44, 100, 102, 104]"

definition ex_cfd :: "Frame \<Rightarrow> Frame \<Rightarrow> real" where
  "ex_cfd a b = (if frame_timestamp b \<in> {40, 44, 100} then 1 / 2 else 1 / 100)"

definition ex_detector :: StaticDetector where
  "ex_detector = StaticDetector_init settings None None"

text \<open>
  A scenario of five frames one second apart; records that differ in time and score
  only; nine of them with the runs 0..5 s, 15..25 s and 35..40 s above the default score
  threshold 7; a shorter series; and an aggregator whose settings put the minimum
  highlight duration to 0.
\<close>

definition ex_still :: "Frame list" where
  "ex_still = map (\<lambda>t. \<lparr>frame_timestamp = t, image_path = []\<rparr>) [0, 1, 2, 3, 4]"

definition ex_record :: "real \<Rightarrow> int \<Rightarrow> FrameAnalysis" where
  "ex_record t s =
     \<lparr>timestamp = t, description = ''trees'', environment = [''outdoor''],
      flight_style = ''cruising'', interest_score = s, quality_issues = []\<rparr>"

definition ex_records :: "FrameAnalysis list" where
  "ex_records = [ex_record 0 8, ex_record 5 9, ex_record 10 3, ex_record 15 8, ex_record 20 7,
     ex_record 25 8, ex_record 30 2, ex_record 35 9, ex_record 40 9]"

definition ex_short :: "FrameAnalysis list" where
  "ex_short = [ex_record 0 8, ex_record 5 8, ex_record 10 3]"

definition ex_aggregator :: Aggregator where
  "ex_aggregator = Aggregator_init settings None None None"

definition ex_zero_aggregator :: Aggregator where
  "ex_zero_aggregator =
     Aggregator_init (settings\<lparr>cfg_highlight_min_duration := 0\<rparr>) None None None"

definition ex_highlight :: "real \<Rightarrow> real \<Rightarrow> int \<Rightarrow> Highlight" where
  "ex_highlight s e sc =
     \<lparr>hl_start = s, hl_end = e, score = sc, hl_description = ''trees'',
      hl_tags = [''outdoor'', ''cruising'']\<rparr>"

text \<open>
  Five records with tags and flight styles, and an aggregator with tag threshold 0.4; a
  record with no flight style; a record with two issue strings that match \<open>signal\<close> or
  \<open>loss\<close>; three records of which two have one matching issue string each; ten
  records that each carry the one issue \<open>dvr-artifact-heavy\<close>.
\<close>

definition ex_tagged :: "FrameAnalysis list" where
  "ex_tagged =
     [\<lparr>timestamp = 0, description = [], environment = [''forest'', ''outdoor''],
       flight_style = ''racing'', interest_score = 5, quality_issues = []\<rparr>,
      \<lparr>timestamp = 2, description = [], environment = [''outdoor''],
       flight_style = ''unknown'', interest_score = 5, quality_issues = []\<rparr>,
      \<lparr>timestamp = 4, description = [], environment = [''outdoor'', ''forest''],
       flight_style = [], interest_score = 5, quality_issues = []\<rparr>,
      \<lparr>timestamp = 6, description = [], environment = [''urban''],
       flight_style = ''racing'', interest_score = 5, quality_issues = []\<rparr>,
      \<lparr>timestamp = 8, description = [], environment = [''outdoor''],
       flight_style = ''stationary'', interest_score = 5, quality_issues = []\<rparr>]"

definition ex_tag_aggregator :: Aggregator where
  "ex_tag_aggregator = Aggregator_init settings (Some (4 / 10)) None None"

definition ex_no_style :: FrameAnalysis where
  "ex_no_style =
     \<lparr>timestamp = 0, description = [], environment = [], flight_style = [],
      interest_score = 5, quality_issues = []\<rparr>"



definition ex_dvr :: "FrameAnalysis list" where
  "ex_dvr = map (\<lambda>t. \<lparr>timestamp = t, description = [], environment = [],
     flight_style = ''cruising'', interest_score = 5,
     quality_issues = [''dvr-artifact-heavy'']\<rparr>) [0, 2, 4, 6, 8, 10, 12, 14, 16, 18]"

text \<open>
  The doubles written 0.1, 5.1, 0.2, 1.2 and 0.7. Two records at 0.1 s and 5.1 s that
  both reach the score threshold; three frames at 0 s, 0.2 s and 1.2 s with a comparison
  that is high on leaving the first frame; ten records of which six carry the tag
  \<open>forest\<close> and all the tag \<open>outdoor\<close>, and an aggregator with the tag threshold 0.7.
\<close>

definition d01 :: real where "d01 = fl (1 / 10)"

definition d51 :: real where "d51 = fl (51 / 10)"

definition d02 :: real where "d02 = fl (2 / 10)"

definition d12 :: real where "d12 = fl (12 / 10)"

definition d07 :: real where "d07 = fl (7 / 10)"

definition ex_rounded :: "FrameAnalysis list" where
  "ex_rounded = [ex_record d01 8, ex_record d51 8]"

definition ex_rounded_frames :: "Frame list" where
  "ex_rounded_frames = map (\<lambda>t. \<lparr>frame_timestamp = t, image_path = []\<rparr>) [0, d02, d12]"

definition ex_rounded_cfd :: "Frame \<Rightarrow> Frame \<Rightarrow> real" where
  "ex_rounded_cfd a b = (if frame_timestamp a = 0 then 1 / 2 else 1 / 100)"

definition ex_ten :: "FrameAnalysis list" where
  "ex_ten =
     map (\<lambda>t. \<lparr>timestamp = t, description = [],
            environment = (if t < 6 then [''forest'', ''outdoor''] else [''outdoor'']),
            flight_style = ''unknown'', interest_score = 5, quality_issues = []\<rparr>)
       [0, 1, 2, 3, 4, 5, 6, 7, 8, 9]"

definition ex_ten_aggregator :: Aggregator where
  "ex_ten_aggregator = Aggregator_init settings (Some d07) None None"

section \<open>Rounding\<close>

text \<open>
  What the proofs need of \<open>fl\<close>: zero stays zero, a number that is not positive is not
  rounded to a positive one, and a number from 1 on is not rounded below 1.
\<close>

lemmas fl_eval = fl_def binade_def round_even_def bitlen.simps Let_def

lemma fl_zero [simp]: "fl 0 = 0"
  by (simp add: fl_def)

lemma bitlen_pos: "0 < n \<Longrightarrow> 0 < bitlen n"
  by (subst bitlen.simps) simp

lemma bitlen_lower: "0 < n \<Longrightarrow> 2 ^ (bitlen n - 1) \<le> n"
proof (induction n rule: bitlen.induct)
  case (1 n)
  show ?case
  proof (cases "n div 2 = 0")
    case True
    with "1.prems" have "bitlen n = Suc 0"
      by (subst bitlen.simps, subst bitlen.simps) simp
    with "1.prems" show ?thesis by simp
  next
    case False
    then have pos: "0 < n div 2" by simp
    from "1.prems" have n0: "n \<noteq> 0" by simp
    from "1.IH" [OF n0 pos] have ih: "2 ^ (bitlen (n div 2) - 1) \<le> n div 2" .
    have b: "bitlen n = Suc (bitlen (n div 2))"
      using n0 by (subst bitlen.simps) simp
    from bitlen_pos [OF pos] obtain k where k: "bitlen (n div 2) = Suc k"
      by (cases "bitlen (n div 2)") auto
    from ih k have "2 ^ k \<le> n div 2" by simp
    then have "2 * 2 ^ k \<le> n" by linarith
    with b k show ?thesis by simp
  qed
qed

lemma binade_lower:
  assumes "1 \<le> x"
  shows "0 \<le> binade x \<and> 2 powi (binade x) \<le> x"
proof -
  let ?n = "nat \<lfloor>x\<rfloor>"
  from assms have n: "0 < ?n" by simp
  from bitlen_pos [OF n] obtain k where k: "bitlen ?n = Suc k"
    by (cases "bitlen ?n") auto
  from assms k have b: "binade x = int k" by (simp add: binade_def)
  from bitlen_lower [OF n] k have "2 ^ k \<le> ?n" by simp
  then have "(2::real) ^ k \<le> real ?n"
    by (metis of_nat_le_iff of_nat_numeral of_nat_power)
  also have "real ?n \<le> x" using assms by simp
  finally show ?thesis using b by simp
qed

lemma round_even_ge_floor: "\<lfloor>r\<rfloor> \<le> round_even r"
  by (simp add: round_even_def Let_def)

lemma round_even_nonpos: "r \<le> 0 \<Longrightarrow> round_even r \<le> 0"
proof -
  assume r: "r \<le> 0"
  then have f: "\<lfloor>r\<rfloor> \<le> 0" by (simp add: floor_le_zero)
  show ?thesis
  proof (cases "\<lfloor>r\<rfloor> = 0")
    case True
    then have "0 \<le> r" by (metis of_int_0 of_int_floor_le)
    with r have "r = 0" by simp
    then show ?thesis by (simp add: round_even_def)
  next
    case False
    with f have "\<lfloor>r\<rfloor> + 1 \<le> 0" by linarith
    moreover have "round_even r \<le> \<lfloor>r\<rfloor> + 1"
      by (simp add: round_even_def Let_def)
    ultimately show ?thesis by linarith
  qed
qed

lemma fl_nonpos: "x \<le> 0 \<Longrightarrow> fl x \<le> 0"
proof (cases "x = 0")
  case True
  then show ?thesis by simp
next
  case False
  assume x: "x \<le> 0"
  define u :: real where "u = 2 powi (max (binade \<bar>x\<bar>) (- 1022) - 52)"
  have u: "0 < u" by (simp add: u_def)
  with x have "x / u \<le> 0" by (simp add: divide_nonpos_pos)
  then have "round_even (x / u) \<le> 0" by (rule round_even_nonpos)
  then have "of_int (round_even (x / u)) * u \<le> 0"
    using u by (simp add: mult_le_0_iff)
  with False show ?thesis by (simp add: fl_def Let_def u_def)
qed

lemma fl_ge_one:
  assumes "1 \<le> x"
  shows "1 \<le> fl x"
proof -
  define e where "e = binade x"
  from binade_lower [OF assms] have e: "0 \<le> e" and le: "2 powi e \<le> x"
    by (simp_all add: e_def)
  define u :: real where "u = 2 powi (e - 52)"
  have u: "0 < u" by (simp add: u_def)
  have split: "(2::real) powi e = 2 ^ 52 * u"
    unfolding u_def by (simp add: power_int_diff)
  from le split have "2 ^ 52 * u \<le> x" by simp
  with u have "2 ^ 52 \<le> x / u" by (simp add: pos_le_divide_eq)
  then have "(2::int) ^ 52 \<le> \<lfloor>x / u\<rfloor>" by (simp add: le_floor_iff)
  with round_even_ge_floor [of "x / u"] have "(2::int) ^ 52 \<le> round_even (x / u)" by linarith
  then have "(2::real) ^ 52 \<le> of_int (round_even (x / u))"
    by (metis of_int_le_iff of_int_numeral of_int_power)
  with u have "2 ^ 52 * u \<le> of_int (round_even (x / u)) * u" by simp
  with split have "2 powi e \<le> of_int (round_even (x / u)) * u" by simp
  moreover have "1 \<le> (2::real) powi e" using e by simp
  moreover from assms e have "fl x = of_int (round_even (x / u)) * u"
    by (simp add: fl_def Let_def u_def e_def max_def)
  ultimately show ?thesis by simp
qed

lemma exit_confidence_range: "0 \<le> exit_confidence diff thr \<and> exit_confidence diff thr \<le> 1"
  by (simp add: exit_confidence_def Let_def)

lemma exit_confidence_zero:
  assumes "0 < thr" and "thr \<le> diff"
  shows "exit_confidence diff thr = 0"
proof -
  from assms have "1 \<le> diff / thr" by (simp add: le_divide_eq_1_pos)
  then have "1 \<le> fl (diff / thr)" by (rule fl_ge_one)
  then have "fl (1 - fl (diff / thr)) \<le> 0" by (intro fl_nonpos) simp
  with assms(1) show ?thesis by (simp add: exit_confidence_def Let_def)
qed

text \<open>The doubles of the examples, and the roundings the examples go through.\<close>

lemma doubles:
  "d01 = 3602879701896397 / 36028797018963968"
  "d51 = 2871044762448691 / 562949953421312"
  "d02 = 3602879701896397 / 18014398509481984"
  "d12 = 5404319552844595 / 4503599627370496"
  "d07 = 3152519739159347 / 4503599627370496"
  by (simp_all add: d01_def d51_def d02_def d12_def d07_def fl_eval)

lemma fl_small:
  "fl 1 = 1" "fl 2 = 2" "fl 4 = 4" "fl 5 = 5" "fl 10 = 10" "fl 40 = 40"
  by (simp_all add: fl_eval)

lemma fl_rounded_up:
  "fl (d51 - d01) = 5" "d51 - d01 < 5" "fl (d12 - d02) = 1" "d12 - d02 < 1"
  "fl (10 * d07) = 7" "\<lfloor>10 * d07\<rfloor> = 6"
  by (simp_all add: doubles) (simp_all add: fl_eval)

section \<open>Loops that may raise\<close>

lemma fold_err_append:
  "fold_err f (xs @ ys) s = (case fold_err f xs s of Inl e \<Rightarrow> Inl e | Inr s' \<Rightarrow> fold_err f ys s')"
  by (induction xs arbitrary: s) (auto split: sum.splits)

lemma fold_err_upt_inv:
  assumes "fold_err f [k..<n] s = Inr s'" and "k \<le> n" and "P k s"
    and step: "\<And>i t t'. k \<le> i \<Longrightarrow> i < n \<Longrightarrow> P i t \<Longrightarrow> f i t = Inr t' \<Longrightarrow> P (Suc i) t'"
  shows "P n s'"
  using assms
proof (induction n arbitrary: s')
  case 0
  then show ?case by simp
next
  case (Suc n)
  show ?case
  proof (cases "k = Suc n")
    case True
    with Suc.prems show ?thesis by simp
  next
    case False
    with Suc.prems have kn: "k \<le> n" by simp
    from Suc.prems(1) kn obtain t where t: "fold_err f [k..<n] s = Inr t" and t': "f n t = Inr s'"
      by (auto simp: fold_err_append split: sum.splits)
    have "P n t"
      using Suc.IH [OF t kn Suc.prems(3)] Suc.prems(4) by simp
    then show ?thesis using Suc.prems(4) [of n t s'] kn t' by simp
  qed
qed

lemma fold_err_upt_total:
  assumes "k \<le> n" and "P k s"
    and step: "\<And>i t. k \<le> i \<Longrightarrow> i < n \<Longrightarrow> P i t \<Longrightarrow> \<exists>t'. f i t = Inr t' \<and> P (Suc i) t'"
  shows "\<exists>s'. fold_err f [k..<n] s = Inr s' \<and> P n s'"
  using assms
proof (induction n)
  case 0
  then show ?case by simp
next
  case (Suc n)
  show ?case
  proof (cases "k = Suc n")
    case True
    with Suc.prems show ?thesis by simp
  next
    case False
    with Suc.prems have kn: "k \<le> n" by simp
    have "\<exists>t. fold_err f [k..<n] s = Inr t \<and> P n t"
      using Suc.IH [OF kn Suc.prems(2)] Suc.prems(3) by simp
    then obtain t where t: "fold_err f [k..<n] s = Inr t" and Pt: "P n t" by blast
    from Suc.prems(3) [of n t] kn Pt obtain t' where "f n t = Inr t'" "P (Suc n) t'" by auto
    then show ?thesis using t kn by (auto simp: fold_err_append)
  qed
qed

lemma fold_err_cong:
  "(\<And>x. x \<in> set xs \<Longrightarrow> f x = g x) \<Longrightarrow> fold_err f xs s = fold_err g xs s"
  by (induction xs arbitrary: s) (auto split: sum.splits)

lemma fold_err_enumerate:
  "fold_err f (enumerate k xs) s = fold_err (\<lambda>i. f (i, xs ! (i - k))) [k..<k + length xs] s"
proof (induction xs arbitrary: k s)
  case Nil
  then show ?case by simp
next
  case (Cons x xs)
  have eq: "fold_err (\<lambda>i. f (i, xs ! (i - Suc k))) [Suc k..<Suc k + length xs] t
      = fold_err (\<lambda>i. f (i, (x # xs) ! (i - k))) [Suc k..<Suc k + length xs] t" for t
  proof (rule fold_err_cong)
    fix i assume "i \<in> set [Suc k..<Suc k + length xs]"
    then have "i - k = Suc (i - Suc k)" by auto
    then show "f (i, xs ! (i - Suc k)) = f (i, (x # xs) ! (i - k))" by simp
  qed
  have upt: "[k..<k + length (x # xs)] = k # [Suc k..<Suc k + length xs]"
    by (simp add: upt_rec)
  show ?case
    unfolding upt using eq by (simp add: Cons.IH del: upt_Suc split: sum.splits)
qed

section \<open>Static segment detection: the emitted segments\<close>

lemma mk_StaticSegment_Inr:
  "mk_StaticSegment s e r c = Inr seg \<Longrightarrow>
     seg_start seg = s \<and> seg_end seg = e \<and> reason seg = r \<and> confidence seg = c"
  by (auto simp: mk_StaticSegment_def split: if_splits)

lemma static_inv_mono:
  "\<forall>s\<in>set segs. \<exists>i j. j < k \<and> static_emitted self cfd vd frames s i j \<Longrightarrow>
   \<forall>s\<in>set segs. \<exists>i j. j < Suc k \<and> static_emitted self cfd vd frames s i j"
  by (meson less_Suc_eq)

lemma static_step_inv:
  assumes step: "static_step self cfd vd frames i st = Inr st'"
    and i: "1 \<le> i" "i < length frames"
    and inv: "static_inv self cfd vd frames i st"
  shows "static_inv self cfd vd frames (Suc i) st'"
proof -
  let ?d = "pair_diff cfd frames"
  let ?thr = "threshold self"
  from inv have segs: "\<forall>s\<in>set (segments st). \<exists>a j. j < Suc i \<and> static_emitted self cfd vd frames s a j"
    unfolding static_inv_def by (meson less_Suc_eq)
  show ?thesis
  proof (cases "?d i < ?thr")
    case low: True
    show ?thesis
    proof (cases "in_static st")
      case True
      with low step have st': "st' = st"
        by (simp add: static_step_def pair_diff_def)
      from inv True obtain e where e: "1 \<le> e" "e < i"
        "static_start st = frame_timestamp (frames ! (e - 1))"
        "\<forall>m\<in>{e..<i}. ?d m < ?thr" "e = 1 \<or> \<not> ?d (e - 1) < ?thr"
        unfolding static_inv_def by auto
      from e(4) low have "\<forall>m\<in>{e..<Suc i}. ?d m < ?thr"
        by (auto simp: less_Suc_eq)
      with e True segs show ?thesis
        unfolding static_inv_def st' by (auto intro!: exI [of _ e])
    next
      case False
      with low step have st': "st' = st\<lparr>in_static := True,
          static_start := frame_timestamp (frames ! (i - 1))\<rparr>"
        by (simp add: static_step_def pair_diff_def)
      from inv False have left: "i = 1 \<or> \<not> ?d (i - 1) < ?thr"
        unfolding static_inv_def by auto
      from low have "\<forall>m\<in>{i..<Suc i}. ?d m < ?thr" by simp
      with left i segs show ?thesis
        unfolding static_inv_def st' by (auto intro!: exI [of _ i])
    qed
  next
    case high: False
    show ?thesis
    proof (cases "in_static st")
      case False
      with high step have st': "st' = st"
        by (simp add: static_step_def pair_diff_def)
      from False high segs show ?thesis
        unfolding static_inv_def st' by simp
    next
      case True
      from inv True obtain e where e: "1 \<le> e" "e < i"
        "static_start st = frame_timestamp (frames ! (e - 1))"
        "\<forall>m\<in>{e..<i}. ?d m < ?thr" "e = 1 \<or> \<not> ?d (e - 1) < ?thr"
        unfolding static_inv_def by auto
      show ?thesis
      proof (cases "fl (frame_timestamp (frames ! i) - static_start st) \<ge> min_duration self")
        case short: False
        with True high step have st': "st' = st\<lparr>in_static := False\<rparr>"
          by (simp add: static_step_def pair_diff_def Let_def)
        from high segs show ?thesis
          unfolding static_inv_def st' by simp
      next
        case long: True
        with True high step obtain seg where
          mk: "mk_StaticSegment (static_start st) (frame_timestamp (frames ! i))
                 (classify_static (static_start st) (frame_timestamp (frames ! i)) vd)
                 (exit_confidence (?d i) ?thr) = Inr seg"
          and st': "st' = st\<lparr>segments := segments st @ [seg], in_static := False\<rparr>"
          by (auto simp: static_step_def pair_diff_def Let_def split: if_splits sum.splits)
        note f = mk_StaticSegment_Inr [OF mk]
        have "static_run self cfd frames e i"
          unfolding static_run_def using e i high by auto
        with f long i e(3) have "static_emitted self cfd vd frames seg e i"
          unfolding static_emitted_def by simp
        then have "\<exists>a j. j < Suc i \<and> static_emitted self cfd vd frames seg a j"
          by blast
        with segs high show ?thesis
          unfolding static_inv_def st' by simp
      qed
    qed
  qed
qed

lemma static_loop_inv:
  assumes "static_loop self cfd vd frames = Inr st" and "2 \<le> length frames"
  shows "static_inv self cfd vd frames (length frames) st"
proof (rule fold_err_upt_inv [where P = "static_inv self cfd vd frames" and k = 1 and
      f = "static_step self cfd vd frames"])
  show "fold_err (static_step self cfd vd frames) [1..<length frames]
      \<lparr>segments = [], in_static = False, static_start = 0\<rparr> = Inr st"
    using assms(1) by (simp add: static_loop_def)
  show "1 \<le> length frames" using assms(2) by simp
  show "static_inv self cfd vd frames 1 \<lparr>segments = [], in_static = False, static_start = 0\<rparr>"
    by (simp add: static_inv_def)
  show "static_inv self cfd vd frames (Suc i) t'"
    if "1 \<le> i" "i < length frames" "static_inv self cfd vd frames i t"
      "static_step self cfd vd frames i t = Inr t'" for i t t'
    using static_step_inv that by blast
qed

lemma static_finish_emitted:
  assumes fin: "static_finish self vd frames st = Inr segs" and n: "2 \<le> length frames"
    and inv: "static_inv self cfd vd frames (length frames) st"
  shows "\<forall>s\<in>set segs. \<exists>i j. static_emitted self cfd vd frames s i j"
proof -
  let ?n = "length frames"
  from inv have old: "\<forall>s\<in>set (segments st). \<exists>i j. static_emitted self cfd vd frames s i j"
    unfolding static_inv_def by blast
  show ?thesis
  proof (cases "in_static st \<and> fl (frame_timestamp (last frames) - static_start st) \<ge> min_duration self")
    case False
    with fin have "segs = segments st"
      by (auto simp: static_finish_def Let_def split: if_splits)
    with old show ?thesis by simp
  next
    case True
    with fin obtain seg where
      mk: "mk_StaticSegment (static_start st) (frame_timestamp (last frames))
             (classify_static (static_start st) (frame_timestamp (last frames)) vd) (9 / 10) = Inr seg"
      and segs: "segs = segments st @ [seg]"
      by (auto simp: static_finish_def Let_def split: if_splits sum.splits)
    note f = mk_StaticSegment_Inr [OF mk]
    from inv True obtain e where e: "1 \<le> e" "e < ?n"
      "static_start st = frame_timestamp (frames ! (e - 1))"
      "\<forall>m\<in>{e..<?n}. pair_diff cfd frames m < threshold self"
      "e = 1 \<or> \<not> pair_diff cfd frames (e - 1) < threshold self"
      unfolding static_inv_def by auto
    have last: "last frames = frames ! (?n - 1)"
      using n by (intro last_conv_nth) auto
    have "static_run self cfd frames e ?n"
      unfolding static_run_def using e by auto
    with f True e(3) last have "static_emitted self cfd vd frames seg e ?n"
      unfolding static_emitted_def by simp
    with old segs show ?thesis by auto
  qed
qed

lemma detect_static_emitted:
  assumes "detect_static_segments self cfd frames vd = Inr segs"
  shows "\<forall>s\<in>set segs. \<exists>i j. static_emitted self cfd vd frames s i j"
proof (cases "length frames < 2")
  case True
  with assms show ?thesis by (simp add: detect_static_segments_def)
next
  case False
  with assms obtain st where st: "static_loop self cfd vd frames = Inr st"
    and fin: "static_finish self vd frames st = Inr segs"
    by (auto simp: detect_static_segments_def split: sum.splits)
  from False have n: "2 \<le> length frames" by simp
  show ?thesis
    using static_finish_emitted [OF fin n static_loop_inv [OF st n]] .
qed

lemma mk_StaticSegment_total:
  "0 \<le> c \<Longrightarrow> c \<le> 1 \<Longrightarrow> \<exists>seg. mk_StaticSegment s e r c = Inr seg"
  by (simp add: mk_StaticSegment_def)

lemma static_step_total: "\<exists>st'. static_step self cfd vd frames i st = Inr st'"
proof -
  obtain seg where "mk_StaticSegment (static_start st) (frame_timestamp (frames ! i))
      (classify_static (static_start st) (frame_timestamp (frames ! i)) vd)
      (exit_confidence (cfd (frames ! (i - 1)) (frames ! i)) (threshold self)) = Inr seg"
    using mk_StaticSegment_total exit_confidence_range by blast
  then show ?thesis
    by (simp add: static_step_def Let_def)
qed

lemma static_loop_total: "\<exists>st. static_loop self cfd vd frames = Inr st"
proof (cases "1 \<le> length frames")
  case False
  then show ?thesis by (simp add: static_loop_def)
next
  case True
  have "\<exists>st. fold_err (static_step self cfd vd frames) [1..<length frames]
      \<lparr>segments = [], in_static = False, static_start = 0\<rparr> = Inr st \<and> True"
  proof (rule fold_err_upt_total [where P = "\<lambda>i st. True"])
    show "1 \<le> length frames" by (rule True)
    show True ..
    show "\<exists>t'. static_step self cfd vd frames i t = Inr t' \<and> True" for i t
      using static_step_total [of self cfd vd frames i t] by simp
  qed
  then show ?thesis by (simp add: static_loop_def)
qed

lemma static_finish_total: "\<exists>segs. static_finish self vd frames st = Inr segs"
  by (simp add: static_finish_def Let_def mk_StaticSegment_def)

lemma detect_static_total: "\<exists>segs. detect_static_segments self cfd frames vd = Inr segs"
proof -
  from static_loop_total obtain st where "static_loop self cfd vd frames = Inr st"
    by blast
  then show ?thesis
    using static_finish_total [of self vd frames st]
    by (auto simp: detect_static_segments_def)
qed

lemma sorted_nth_step:
  assumes "sorted (map f xs)" and "1 \<le> i" and "i < length xs"
  shows "f (xs ! (i - 1)) \<le> f (xs ! i)"
proof -
  have "map f xs ! (i - 1) \<le> map f xs ! i"
    using assms by (intro sorted_nth_mono) auto
  then show ?thesis using assms by simp
qed

lemma static_step_cases:
  assumes step: "static_step self cfd vd frames i st = Inr st'"
  shows "st' = st \<or>
      (\<not> in_static st \<and>
        st' = st\<lparr>in_static := True, static_start := frame_timestamp (frames ! (i - 1))\<rparr>) \<or>
      st' = st\<lparr>in_static := False\<rparr> \<or>
      (\<exists>seg. in_static st \<and> seg_start seg = static_start st \<and>
         seg_end seg = frame_timestamp (frames ! i) \<and>
         st' = st\<lparr>segments := segments st @ [seg], in_static := False\<rparr>)"
proof (cases "cfd (frames ! (i - 1)) (frames ! i) < threshold self")
  case True
  with step show ?thesis
    by (cases "in_static st") (simp_all add: static_step_def)
next
  case high: False
  show ?thesis
  proof (cases "in_static st")
    case False
    with high step show ?thesis by (simp add: static_step_def)
  next
    case True
    show ?thesis
    proof (cases "fl (frame_timestamp (frames ! i) - static_start st) \<ge> min_duration self")
      case False
      with True high step show ?thesis by (simp add: static_step_def Let_def)
    next
      case long: True
      with True high step obtain seg where
        mk: "mk_StaticSegment (static_start st) (frame_timestamp (frames ! i))
               (classify_static (static_start st) (frame_timestamp (frames ! i)) vd)
               (exit_confidence (cfd (frames ! (i - 1)) (frames ! i)) (threshold self)) = Inr seg"
        and st': "st' = st\<lparr>segments := segments st @ [seg], in_static := False\<rparr>"
        by (simp add: static_step_def Let_def split: sum.splits)
      from mk_StaticSegment_Inr [OF mk] st' True show ?thesis by blast
    qed
  qed
qed

lemma static_step_ord:
  assumes step: "static_step self cfd vd frames i st = Inr st'"
    and srt: "sorted (map frame_timestamp frames)"
    and i: "1 \<le> i" "i < length frames"
    and inv: "static_ord frames i st"
  shows "static_ord frames (Suc i) st'"
proof -
  let ?ts = "\<lambda>k. frame_timestamp (frames ! k)"
  have mono: "?ts (i - 1) \<le> ?ts i"
    using sorted_nth_step [OF srt i] .
  from inv have sw: "sorted_wrt (\<lambda>a b. seg_end a \<le> seg_start b) (segments st)"
    and old: "\<forall>s\<in>set (segments st). seg_start s \<le> seg_end s \<and> seg_end s \<le> ?ts (i - 1)"
    and cur: "in_static st \<longrightarrow> (\<forall>s\<in>set (segments st). seg_end s \<le> static_start st) \<and>
        static_start st \<le> ?ts (i - 1)"
    unfolding static_ord_def by auto
  from old mono have old': "\<forall>s\<in>set (segments st). seg_start s \<le> seg_end s \<and> seg_end s \<le> ?ts i"
    by fastforce
  have "st' = st \<or>
      (\<not> in_static st \<and> st' = st\<lparr>in_static := True, static_start := ?ts (i - 1)\<rparr>) \<or>
      st' = st\<lparr>in_static := False\<rparr> \<or>
      (\<exists>seg. in_static st \<and> seg_start seg = static_start st \<and> seg_end seg = ?ts i \<and>
         st' = st\<lparr>segments := segments st @ [seg], in_static := False\<rparr>)"
    using static_step_cases [OF step] .
  then consider (same) "st' = st"
    | (enter) "\<not> in_static st" "st' = st\<lparr>in_static := True, static_start := ?ts (i - 1)\<rparr>"
    | (drop) "st' = st\<lparr>in_static := False\<rparr>"
    | (emit) seg where "in_static st" "seg_start seg = static_start st" "seg_end seg = ?ts i"
        "st' = st\<lparr>segments := segments st @ [seg], in_static := False\<rparr>"
    by blast
  then show ?thesis
  proof cases
    case same
    with sw old' cur mono show ?thesis
      unfolding static_ord_def by auto
  next
    case enter
    with sw old old' mono show ?thesis
      unfolding static_ord_def by auto
  next
    case drop
    with sw old' show ?thesis
      unfolding static_ord_def by auto
  next
    case emit
    from emit(1) cur have c: "\<forall>s\<in>set (segments st). seg_end s \<le> static_start st"
      "static_start st \<le> ?ts (i - 1)" by auto
    have "sorted_wrt (\<lambda>a b. seg_end a \<le> seg_start b) (segments st @ [seg])"
      using sw c(1) emit(2) by (simp add: sorted_wrt_append)
    moreover have "seg_start seg \<le> seg_end seg"
      using emit(2,3) c(2) mono by simp
    ultimately show ?thesis
      unfolding static_ord_def using emit old' by auto
  qed
qed

lemma static_loop_ord:
  assumes "static_loop self cfd vd frames = Inr st" and "2 \<le> length frames"
    and srt: "sorted (map frame_timestamp frames)"
  shows "static_ord frames (length frames) st"
proof (rule fold_err_upt_inv [where P = "static_ord frames" and k = 1 and
      f = "static_step self cfd vd frames"])
  show "fold_err (static_step self cfd vd frames) [1..<length frames]
      \<lparr>segments = [], in_static = False, static_start = 0\<rparr> = Inr st"
    using assms(1) by (simp add: static_loop_def)
  show "1 \<le> length frames" using assms(2) by simp
  show "static_ord frames 1 \<lparr>segments = [], in_static = False, static_start = 0\<rparr>"
    by (simp add: static_ord_def)
  show "static_ord frames (Suc i) t'"
    if "1 \<le> i" "i < length frames" "static_ord frames i t"
      "static_step self cfd vd frames i t = Inr t'" for i t t'
    using static_step_ord [OF that(4) srt that(1,2,3)] .
qed

lemma static_finish_cases:
  assumes fin: "static_finish self vd frames st = Inr segs"
  shows "segs = segments st \<or>
      (\<exists>seg. in_static st \<and> seg_start seg = static_start st \<and>
         seg_end seg = frame_timestamp (last frames) \<and> segs = segments st @ [seg])"
proof (cases "in_static st \<and> fl (frame_timestamp (last frames) - static_start st) \<ge> min_duration self")
  case False
  with fin show ?thesis
    by (auto simp: static_finish_def Let_def split: if_splits)
next
  case True
  with fin obtain seg where
    mk: "mk_StaticSegment (static_start st) (frame_timestamp (last frames))
           (classify_static (static_start st) (frame_timestamp (last frames)) vd) (9 / 10) = Inr seg"
    and segs: "segs = segments st @ [seg]"
    by (simp add: static_finish_def Let_def split: sum.splits)
  from mk_StaticSegment_Inr [OF mk] segs True show ?thesis by blast
qed

lemma detect_static_ordered:
  assumes det: "detect_static_segments self cfd frames vd = Inr segs"
    and srt: "sorted (map frame_timestamp frames)"
  shows "sorted_wrt (\<lambda>a b. seg_end a \<le> seg_start b) segs \<and>
         (\<forall>s\<in>set segs. seg_start s \<le> seg_end s)"
proof (cases "length frames < 2")
  case True
  with det show ?thesis by (simp add: detect_static_segments_def)
next
  case False
  with det obtain st where st: "static_loop self cfd vd frames = Inr st"
    and fin: "static_finish self vd frames st = Inr segs"
    by (auto simp: detect_static_segments_def split: sum.splits)
  from False have n: "2 \<le> length frames" by simp
  have last: "last frames = frames ! (length frames - 1)"
    using n by (intro last_conv_nth) auto
  note inv = static_loop_ord [OF st n srt]
  from inv have sw: "sorted_wrt (\<lambda>a b. seg_end a \<le> seg_start b) (segments st)"
    and old: "\<forall>s\<in>set (segments st). seg_start s \<le> seg_end s"
    and cur: "in_static st \<longrightarrow> (\<forall>s\<in>set (segments st). seg_end s \<le> static_start st) \<and>
        static_start st \<le> frame_timestamp (last frames)"
    unfolding static_ord_def last by auto
  have "segs = segments st \<or>
      (\<exists>seg. in_static st \<and> seg_start seg = static_start st \<and>
         seg_end seg = frame_timestamp (last frames) \<and> segs = segments st @ [seg])"
    using static_finish_cases [OF fin] .
  then consider (same) "segs = segments st"
    | (emit) seg where "in_static st" "seg_start seg = static_start st"
        "seg_end seg = frame_timestamp (last frames)" "segs = segments st @ [seg]"
    by blast
  then show ?thesis
  proof cases
    case same
    with sw old show ?thesis by simp
  next
    case emit
    with sw old cur show ?thesis
      by (auto simp: sorted_wrt_append)
  qed
qed

lemma sorted_wrt_starts:
  assumes "sorted_wrt (\<lambda>a b. e a \<le> s b) xs" and "\<forall>x\<in>set xs. s x \<le> (e x :: real)"
  shows "sorted_wrt (\<lambda>a b. s a \<le> s b) xs"
  using assms by (induction xs) fastforce+

lemma nonneg_diffsD:
  "nonneg_diffs cfd frames \<Longrightarrow> 1 \<le> k \<Longrightarrow> k < length frames \<Longrightarrow> 0 \<le> pair_diff cfd frames k"
  by (simp add: nonneg_diffs_def)

lemma static_threshold_pos:
  assumes ok: "0 < threshold self \<or> nonneg_diffs cfd frames"
    and run: "static_run self cfd frames i j"
  shows "0 < threshold self"
proof (cases "0 < threshold self")
  case False
  with ok have "nonneg_diffs cfd frames" by simp
  moreover from run have "1 \<le> i" "i < length frames" "pair_diff cfd frames i < threshold self"
    unfolding static_run_def by auto
  ultimately show ?thesis
    using nonneg_diffsD [of cfd frames i] by linarith
qed simp

subsection \<open>The example series\<close>

lemma upt9: "[1..<9] = [1,2,3,4,5,6,7,8]" by (simp add: upt_rec)

lemma ex_static_eval:
  "detect_static_segments ex_detector ex_cfd ex_frames 110 =
     Inr [\<lparr>seg_start = 0, seg_end = 40, reason = PRE_ARM, confidence = 0\<rparr>,
          \<lparr>seg_start = 40, seg_end = 44, reason = DVR_FREEZE, confidence = 0\<rparr>,
          \<lparr>seg_start = 100, seg_end = 104, reason = POST_LAND, confidence = 9 / 10\<rparr>]"
  by (simp add: detect_static_segments_def static_loop_def static_finish_def static_step_def
      ex_detector_def ex_cfd_def ex_frames_def StaticDetector_init_def settings_def py_or_def
      classify_static_def mk_StaticSegment_def upt9 Let_def fl_small exit_confidence_zero)

lemma ex_nonneg: "nonneg_diffs ex_cfd ex_frames"
  by (simp add: nonneg_diffs_def pair_diff_def ex_cfd_def)

section \<open>Highlight detection: the emitted highlights\<close>

lemma mk_Highlight_Inr:
  "mk_Highlight s e sc d ts = Inr h \<Longrightarrow> hl_start h = s \<and> hl_end h = e \<and> score h = sc"
  by (auto simp: mk_Highlight_def split: if_splits)

lemma create_highlight_Inr:
  assumes "create_highlight s e frames = Inr h"
  shows "hl_start h = s \<and> hl_end h = e \<and>
         score h = sum_list (map interest_score frames) div int (length frames) \<and> frames \<noteq> []"
  using assms
  by (auto simp: create_highlight_def Let_def split: if_splits sum.splits dest: mk_Highlight_Inr)

lemma sum_scores_bounds:
  "\<forall>f\<in>set frames. valid_record f \<Longrightarrow>
     int (length frames) \<le> sum_list (map interest_score frames) \<and>
     sum_list (map interest_score frames) \<le> 10 * int (length frames)"
  by (induction frames) (auto simp: valid_record_def)

lemma avg_score_range:
  assumes "frames \<noteq> []" and "\<forall>f\<in>set frames. valid_record f"
  shows "1 \<le> sum_list (map interest_score frames) div int (length frames) \<and>
         sum_list (map interest_score frames) div int (length frames) \<le> 10"
proof -
  let ?n = "int (length frames)" and ?S = "sum_list (map interest_score frames)"
  have n: "0 < ?n" using assms(1) by simp
  from sum_scores_bounds [OF assms(2)] have b: "?n \<le> ?S" "?S \<le> 10 * ?n" by auto
  from n b(1) have "0 < ?S div ?n" by (simp add: pos_imp_zdiv_pos_iff)
  moreover have "?S div ?n \<le> (10 * ?n) div ?n"
    using b(2) n by (intro zdiv_mono1) auto
  ultimately show ?thesis using n by simp
qed

lemma create_highlight_total:
  assumes "frames \<noteq> []" and "\<forall>f\<in>set frames. valid_record f"
  shows "\<exists>h. create_highlight s e frames = Inr h"
  using assms avg_score_range [OF assms]
  by (cases frames) (auto simp: create_highlight_def Let_def py_max_key_def mk_Highlight_def)

lemma slice_Suc:
  assumes "e \<le> i" and "i < length xs"
  shows "slice xs e (Suc i) = slice xs e i @ [xs ! i]"
proof -
  have "i - e < length (drop e xs)" using assms by simp
  then have "take (Suc (i - e)) (drop e xs) = take (i - e) (drop e xs) @ [drop e xs ! (i - e)]"
    by (rule take_Suc_conv_app_nth)
  moreover have "Suc i - e = Suc (i - e)" using assms by simp
  ultimately show ?thesis using assms by (simp add: slice_def)
qed

lemma slice_single: "i < length xs \<Longrightarrow> slice xs i (Suc i) = [xs ! i]"
  using slice_Suc [of i i xs] by (simp add: slice_def)

text \<open>The outcomes of one iteration.\<close>

lemma highlight_step_cases:
  assumes step: "highlight_step self fas (i, fa) st = Inr st'"
  shows "(highlight_score_threshold self \<le> interest_score fa \<and> \<not> in_highlight st \<and>
            st' = st\<lparr>in_highlight := True, highlight_start := timestamp fa,
                      highlight_frames := [fa]\<rparr>) \<or>
         (highlight_score_threshold self \<le> interest_score fa \<and> in_highlight st \<and>
            st' = st\<lparr>highlight_frames := highlight_frames st @ [fa]\<rparr>) \<or>
         (\<not> highlight_score_threshold self \<le> interest_score fa \<and> \<not> in_highlight st \<and> st' = st) \<or>
         (\<not> highlight_score_threshold self \<le> interest_score fa \<and> in_highlight st \<and>
            \<not> highlight_min_duration self \<le> fl (timestamp (index_prev fas i) - highlight_start st) \<and>
            st' = st\<lparr>in_highlight := False, highlight_frames := []\<rparr>) \<or>
         (\<exists>h. \<not> highlight_score_threshold self \<le> interest_score fa \<and> in_highlight st \<and>
            highlight_min_duration self \<le> fl (timestamp (index_prev fas i) - highlight_start st) \<and>
            create_highlight (highlight_start st) (timestamp (index_prev fas i))
              (highlight_frames st) = Inr h \<and>
            st' = st\<lparr>highlights := highlights st @ [h], in_highlight := False,
                      highlight_frames := []\<rparr>)"
proof (cases "highlight_score_threshold self \<le> interest_score fa")
  case True
  with step show ?thesis
    by (cases "in_highlight st") (simp_all add: highlight_step_def)
next
  case low: False
  show ?thesis
  proof (cases "in_highlight st")
    case False
    with low step show ?thesis by (simp add: highlight_step_def)
  next
    case True
    show ?thesis
    proof (cases "highlight_min_duration self \<le> fl (timestamp (index_prev fas i) - highlight_start st)")
      case False
      with True low step show ?thesis by (simp add: highlight_step_def Let_def)
    next
      case long: True
      with True low step obtain h where
        "create_highlight (highlight_start st) (timestamp (index_prev fas i))
              (highlight_frames st) = Inr h"
        "st' = st\<lparr>highlights := highlights st @ [h], in_highlight := False,
                      highlight_frames := []\<rparr>"
        by (simp add: highlight_step_def Let_def split: sum.splits)
      with True low long show ?thesis by blast
    qed
  qed
qed

lemma highlight_finish_cases:
  assumes fin: "highlight_finish self fas st = Inr hs"
  shows "hs = highlights st \<or>
      (\<exists>h. in_highlight st \<and>
         highlight_min_duration self \<le> fl (timestamp (last fas) - highlight_start st) \<and>
         create_highlight (highlight_start st) (timestamp (last fas)) (highlight_frames st) = Inr h \<and>
         hs = highlights st @ [h])"
proof (cases "in_highlight st \<and>
    highlight_min_duration self \<le> fl (timestamp (last fas) - highlight_start st)")
  case False
  with fin show ?thesis
    by (auto simp: highlight_finish_def Let_def split: if_splits)
next
  case True
  with fin obtain h where
    "create_highlight (highlight_start st) (timestamp (last fas)) (highlight_frames st) = Inr h"
    "hs = highlights st @ [h]"
    by (simp add: highlight_finish_def Let_def split: sum.splits)
  with True show ?thesis by blast
qed

lemma highlight_loop_upt:
  "highlight_loop self fas =
     fold_err (\<lambda>i. highlight_step self fas (i, fas ! i)) [0..<length fas]
       \<lparr>highlights = [], in_highlight = False, highlight_start = 0, highlight_frames = []\<rparr>"
  by (simp add: highlight_loop_def fold_err_enumerate)

lemma highlight_step_inv:
  assumes step: "highlight_step self fas (i, fas ! i) st = Inr st'"
    and i: "i < length fas"
    and inv: "hl_inv self fas i st"
  shows "hl_inv self fas (Suc i) st'"
proof -
  let ?thr = "highlight_score_threshold self"
  let ?sc = "\<lambda>k. interest_score (fas ! k)"
  from inv have hs: "\<forall>h\<in>set (highlights st). \<exists>a j. j < Suc i \<and> hl_emitted self fas h a j"
    unfolding hl_inv_def by (meson less_Suc_eq)
  have in_hl: "\<exists>e. e < i \<and> highlight_start st = timestamp (fas ! e) \<and>
      highlight_frames st = slice fas e i \<and> (\<forall>m\<in>{e..<i}. ?thr \<le> ?sc m) \<and>
      (e = 0 \<or> \<not> ?thr \<le> ?sc (e - 1))" if "in_highlight st"
    using inv that unfolding hl_inv_def by simp
  have not_hl: "i = 0 \<or> \<not> ?thr \<le> ?sc (i - 1)" if "\<not> in_highlight st"
    using inv that unfolding hl_inv_def by simp
  from highlight_step_cases [OF step]
  consider (enter) "?thr \<le> ?sc i" "\<not> in_highlight st"
      "st' = st\<lparr>in_highlight := True, highlight_start := timestamp (fas ! i),
                  highlight_frames := [fas ! i]\<rparr>"
    | (stay) "?thr \<le> ?sc i" "in_highlight st"
      "st' = st\<lparr>highlight_frames := highlight_frames st @ [fas ! i]\<rparr>"
    | (out) "\<not> ?thr \<le> ?sc i" "\<not> in_highlight st" "st' = st"
    | (drop) "\<not> ?thr \<le> ?sc i" "in_highlight st"
      "st' = st\<lparr>in_highlight := False, highlight_frames := []\<rparr>"
    | (emit) h where "\<not> ?thr \<le> ?sc i" "in_highlight st"
      "highlight_min_duration self \<le> fl (timestamp (index_prev fas i) - highlight_start st)"
      "create_highlight (highlight_start st) (timestamp (index_prev fas i))
          (highlight_frames st) = Inr h"
      "st' = st\<lparr>highlights := highlights st @ [h], in_highlight := False,
                  highlight_frames := []\<rparr>"
    by blast
  then show ?thesis
  proof cases
    case enter
    have "\<forall>m\<in>{i..<Suc i}. ?thr \<le> ?sc m" using enter(1) by simp
    with enter hs not_hl i show ?thesis
      unfolding hl_inv_def by (auto simp: slice_single intro!: exI [of _ i])
  next
    case stay
    from in_hl [OF stay(2)] obtain e where e: "e < i"
      "highlight_start st = timestamp (fas ! e)" "highlight_frames st = slice fas e i"
      "\<forall>m\<in>{e..<i}. ?thr \<le> ?sc m" "e = 0 \<or> \<not> ?thr \<le> ?sc (e - 1)" by blast
    from e(4) stay(1) have all: "\<forall>m\<in>{e..<Suc i}. ?thr \<le> ?sc m"
      by (auto simp: less_Suc_eq)
    have fr: "highlight_frames st @ [fas ! i] = slice fas e (Suc i)"
      using e(1,3) i by (simp add: slice_Suc)
    from e all fr stay hs show ?thesis
      unfolding hl_inv_def by (auto intro!: exI [of _ e])
  next
    case out
    with hs show ?thesis unfolding hl_inv_def by simp
  next
    case drop
    with hs show ?thesis unfolding hl_inv_def by simp
  next
    case emit
    from in_hl [OF emit(2)] obtain e where e: "e < i"
      "highlight_start st = timestamp (fas ! e)" "highlight_frames st = slice fas e i"
      "\<forall>m\<in>{e..<i}. ?thr \<le> ?sc m" "e = 0 \<or> \<not> ?thr \<le> ?sc (e - 1)" by blast
    from e(1) have prev: "index_prev fas i = fas ! (i - 1)"
      by (simp add: index_prev_def)
    have "hl_run self fas e i"
      unfolding hl_run_def using e i emit(1) by auto
    with emit(3,4) e(2,3) prev have "hl_emitted self fas h e i"
      unfolding hl_emitted_def by simp
    then have "\<exists>a j. j < Suc i \<and> hl_emitted self fas h a j" by blast
    with hs emit show ?thesis unfolding hl_inv_def by simp
  qed
qed

lemma highlight_loop_inv:
  assumes "highlight_loop self fas = Inr st"
  shows "hl_inv self fas (length fas) st"
proof (rule fold_err_upt_inv [where P = "hl_inv self fas" and k = 0 and
      f = "\<lambda>i. highlight_step self fas (i, fas ! i)"])
  show "fold_err (\<lambda>i. highlight_step self fas (i, fas ! i)) [0..<length fas]
      \<lparr>highlights = [], in_highlight = False, highlight_start = 0, highlight_frames = []\<rparr> = Inr st"
    using assms by (simp add: highlight_loop_upt)
  show "0 \<le> length fas" by simp
  show "hl_inv self fas 0
      \<lparr>highlights = [], in_highlight = False, highlight_start = 0, highlight_frames = []\<rparr>"
    by (simp add: hl_inv_def)
  show "hl_inv self fas (Suc i) t'"
    if "0 \<le> i" "i < length fas" "hl_inv self fas i t"
      "highlight_step self fas (i, fas ! i) t = Inr t'" for i t t'
    using highlight_step_inv [OF that(4,2,3)] .
qed

lemma detect_highlights_emitted:
  assumes det: "detect_highlights self fas = Inr hs"
  shows "\<forall>h\<in>set hs. \<exists>i j. hl_emitted self fas h i j"
proof (cases "fas = []")
  case True
  with det show ?thesis by (simp add: detect_highlights_def)
next
  case False
  with det obtain st where st: "highlight_loop self fas = Inr st"
    and fin: "highlight_finish self fas st = Inr hs"
    by (auto simp: detect_highlights_def split: sum.splits)
  let ?n = "length fas"
  note inv = highlight_loop_inv [OF st]
  then have old: "\<forall>h\<in>set (highlights st). \<exists>i j. hl_emitted self fas h i j"
    unfolding hl_inv_def by blast
  from highlight_finish_cases [OF fin]
  consider (same) "hs = highlights st"
    | (emit) h where "in_highlight st"
        "highlight_min_duration self \<le> fl (timestamp (last fas) - highlight_start st)"
        "create_highlight (highlight_start st) (timestamp (last fas)) (highlight_frames st) = Inr h"
        "hs = highlights st @ [h]"
    by blast
  then show ?thesis
  proof cases
    case same
    with old show ?thesis by simp
  next
    case emit
    from inv emit(1) obtain e where e: "e < ?n"
      "highlight_start st = timestamp (fas ! e)" "highlight_frames st = slice fas e ?n"
      "\<forall>m\<in>{e..<?n}. highlight_score_threshold self \<le> interest_score (fas ! m)"
      "e = 0 \<or> \<not> highlight_score_threshold self \<le> interest_score (fas ! (e - 1))"
      unfolding hl_inv_def by auto
    have last: "last fas = fas ! (?n - 1)"
      using False by (rule last_conv_nth)
    have "hl_run self fas e ?n"
      unfolding hl_run_def using e by auto
    with emit(2,3) e(2,3) last have "hl_emitted self fas h e ?n"
      unfolding hl_emitted_def by simp
    with old emit(4) show ?thesis by auto
  qed
qed

text \<open>No iteration raises on records the schema accepts.\<close>

lemma highlight_step_total:
  assumes valid: "\<forall>fa\<in>set fas. valid_record fa" and i: "i < length fas"
    and ok: "hl_ok fas st"
  shows "\<exists>st'. highlight_step self fas (i, fas ! i) st = Inr st' \<and> hl_ok fas st'"
proof (cases "highlight_score_threshold self \<le> interest_score (fas ! i)")
  case True
  with ok i show ?thesis
    by (cases "in_highlight st") (auto simp: highlight_step_def hl_ok_def)
next
  case low: False
  show ?thesis
  proof (cases "in_highlight st")
    case False
    with low ok show ?thesis by (simp add: highlight_step_def hl_ok_def)
  next
    case True
    with ok valid have "highlight_frames st \<noteq> []" "\<forall>f\<in>set (highlight_frames st). valid_record f"
      unfolding hl_ok_def by auto
    from create_highlight_total [OF this] obtain h where
      "create_highlight (highlight_start st) (timestamp (index_prev fas i))
         (highlight_frames st) = Inr h" by blast
    with True low show ?thesis
      by (simp add: highlight_step_def hl_ok_def Let_def)
  qed
qed

lemma highlight_loop_total:
  assumes valid: "\<forall>fa\<in>set fas. valid_record fa"
  shows "\<exists>st. highlight_loop self fas = Inr st \<and> hl_ok fas st"
  unfolding highlight_loop_upt
proof (rule fold_err_upt_total [where P = "\<lambda>i. hl_ok fas"])
  show "0 \<le> length fas" by simp
  show "hl_ok fas
      \<lparr>highlights = [], in_highlight = False, highlight_start = 0, highlight_frames = []\<rparr>"
    by (simp add: hl_ok_def)
  show "\<exists>t'. highlight_step self fas (i, fas ! i) t = Inr t' \<and> hl_ok fas t'"
    if "0 \<le> i" "i < length fas" "hl_ok fas t" for i t
    using highlight_step_total [OF valid that(2,3)] .
qed

lemma detect_highlights_total:
  assumes valid: "\<forall>fa\<in>set fas. valid_record fa"
  shows "\<exists>hs. detect_highlights self fas = Inr hs"
proof (cases "fas = []")
  case True
  then show ?thesis by (simp add: detect_highlights_def)
next
  case False
  from highlight_loop_total [OF valid] obtain st where
    st: "highlight_loop self fas = Inr st" and ok: "hl_ok fas st" by blast
  show ?thesis
  proof (cases "in_highlight st")
    case False
    with st \<open>fas \<noteq> []\<close> show ?thesis
      by (simp add: detect_highlights_def highlight_finish_def)
  next
    case True
    with ok valid have "highlight_frames st \<noteq> []" "\<forall>f\<in>set (highlight_frames st). valid_record f"
      unfolding hl_ok_def by auto
    from create_highlight_total [OF this] obtain h where
      "create_highlight (highlight_start st) (timestamp (last fas)) (highlight_frames st) = Inr h"
      by blast
    with st \<open>fas \<noteq> []\<close> show ?thesis
      by (simp add: detect_highlights_def highlight_finish_def Let_def)
  qed
qed

text \<open>The order of the emitted highlights, on non-decreasing timestamps.\<close>

lemma highlight_step_ord:
  assumes step: "highlight_step self fas (i, fas ! i) st = Inr st'"
    and srt: "sorted (map timestamp fas)"
    and i: "i < length fas"
    and inv: "hl_ord fas i st"
  shows "hl_ord fas (Suc i) st'"
proof -
  let ?ts = "\<lambda>k. timestamp (fas ! k)"
  have mono: "?ts (i - 1) \<le> ?ts i"
  proof (cases "i = 0")
    case False
    then show ?thesis using sorted_nth_step [OF srt _ i] by simp
  qed simp
  from inv have sw: "sorted_wrt (\<lambda>a b. hl_end a \<le> hl_start b) (highlights st)"
    and old: "\<forall>h\<in>set (highlights st). hl_start h \<le> hl_end h \<and> hl_end h \<le> ?ts (i - 1)"
    and cur: "in_highlight st \<longrightarrow> 1 \<le> i \<and>
        (\<forall>h\<in>set (highlights st). hl_end h \<le> highlight_start st) \<and>
        highlight_start st \<le> ?ts (i - 1)"
    unfolding hl_ord_def by auto
  from old mono have old': "\<forall>h\<in>set (highlights st). hl_start h \<le> hl_end h \<and> hl_end h \<le> ?ts i"
    by fastforce
  from highlight_step_cases [OF step]
  consider (enter) "\<not> in_highlight st"
      "st' = st\<lparr>in_highlight := True, highlight_start := timestamp (fas ! i),
                  highlight_frames := [fas ! i]\<rparr>"
    | (stay) "in_highlight st"
      "st' = st\<lparr>highlight_frames := highlight_frames st @ [fas ! i]\<rparr>"
    | (out) "\<not> in_highlight st" "st' = st"
    | (drop) "st' = st\<lparr>in_highlight := False, highlight_frames := []\<rparr>"
    | (emit) h where "in_highlight st"
      "create_highlight (highlight_start st) (timestamp (index_prev fas i))
          (highlight_frames st) = Inr h"
      "st' = st\<lparr>highlights := highlights st @ [h], in_highlight := False,
                  highlight_frames := []\<rparr>"
    by blast
  then show ?thesis
  proof cases
    case enter
    with sw old old' show ?thesis unfolding hl_ord_def by auto
  next
    case stay
    with sw old' cur mono show ?thesis unfolding hl_ord_def by auto
  next
    case out
    with sw old' show ?thesis unfolding hl_ord_def by auto
  next
    case drop
    with sw old' show ?thesis unfolding hl_ord_def by auto
  next
    case emit
    from emit(1) cur have c: "1 \<le> i" "\<forall>h\<in>set (highlights st). hl_end h \<le> highlight_start st"
      "highlight_start st \<le> ?ts (i - 1)" by auto
    from c(1) have prev: "index_prev fas i = fas ! (i - 1)"
      by (simp add: index_prev_def)
    from create_highlight_Inr [OF emit(2)] prev
    have h: "hl_start h = highlight_start st" "hl_end h = ?ts (i - 1)" by auto
    have "sorted_wrt (\<lambda>a b. hl_end a \<le> hl_start b) (highlights st @ [h])"
      using sw c(2) h(1) by (simp add: sorted_wrt_append)
    moreover have "hl_start h \<le> hl_end h" "hl_end h \<le> ?ts i"
      using h c(3) mono by auto
    ultimately show ?thesis
      unfolding hl_ord_def using emit(3) old' by auto
  qed
qed

lemma highlight_loop_ord:
  assumes "highlight_loop self fas = Inr st" and srt: "sorted (map timestamp fas)"
  shows "hl_ord fas (length fas) st"
proof (rule fold_err_upt_inv [where P = "hl_ord fas" and k = 0 and
      f = "\<lambda>i. highlight_step self fas (i, fas ! i)"])
  show "fold_err (\<lambda>i. highlight_step self fas (i, fas ! i)) [0..<length fas]
      \<lparr>highlights = [], in_highlight = False, highlight_start = 0, highlight_frames = []\<rparr> = Inr st"
    using assms(1) by (simp add: highlight_loop_upt)
  show "0 \<le> length fas" by simp
  show "hl_ord fas 0
      \<lparr>highlights = [], in_highlight = False, highlight_start = 0, highlight_frames = []\<rparr>"
    by (simp add: hl_ord_def)
  show "hl_ord fas (Suc i) t'"
    if "0 \<le> i" "i < length fas" "hl_ord fas i t"
      "highlight_step self fas (i, fas ! i) t = Inr t'" for i t t'
    using highlight_step_ord [OF that(4) srt that(2,3)] .
qed

lemma detect_highlights_ordered:
  assumes det: "detect_highlights self fas = Inr hs"
    and srt: "sorted (map timestamp fas)"
  shows "sorted_wrt (\<lambda>a b. hl_end a \<le> hl_start b) hs \<and> (\<forall>h\<in>set hs. hl_start h \<le> hl_end h)"
proof (cases "fas = []")
  case True
  with det show ?thesis by (simp add: detect_highlights_def)
next
  case False
  with det obtain st where st: "highlight_loop self fas = Inr st"
    and fin: "highlight_finish self fas st = Inr hs"
    by (auto simp: detect_highlights_def split: sum.splits)
  have last: "last fas = fas ! (length fas - 1)"
    using False by (rule last_conv_nth)
  note inv = highlight_loop_ord [OF st srt]
  from inv have sw: "sorted_wrt (\<lambda>a b. hl_end a \<le> hl_start b) (highlights st)"
    and old: "\<forall>h\<in>set (highlights st). hl_start h \<le> hl_end h"
    and cur: "in_highlight st \<longrightarrow> (\<forall>h\<in>set (highlights st). hl_end h \<le> highlight_start st) \<and>
        highlight_start st \<le> timestamp (last fas)"
    unfolding hl_ord_def last by auto
  from highlight_finish_cases [OF fin]
  consider (same) "hs = highlights st"
    | (emit) h where "in_highlight st"
        "create_highlight (highlight_start st) (timestamp (last fas)) (highlight_frames st) = Inr h"
        "hs = highlights st @ [h]"
    by blast
  then show ?thesis
  proof cases
    case same
    with sw old show ?thesis by simp
  next
    case emit
    from create_highlight_Inr [OF emit(2)]
    have h: "hl_start h = highlight_start st" "hl_end h = timestamp (last fas)" by auto
    with emit sw old cur show ?thesis
      by (auto simp: sorted_wrt_append)
  qed
qed

lemma floor_mean_div:
  "\<lfloor>mean xs\<rfloor> = sum_list xs div int (length xs)"
  unfolding mean_def by (metis floor_divide_of_int_eq of_int_of_nat_eq)

lemma slice_length: "i < j \<Longrightarrow> j \<le> length xs \<Longrightarrow> length (slice xs i j) = j - i"
  by (simp add: slice_def)

subsection \<open>The example records\<close>

lemmas ex_eval_simps =
  detect_highlights_def highlight_loop_def highlight_finish_def highlight_step_def
  create_highlight_def mk_Highlight_def py_max_key_def most_common_def sort_desc_def
  tally_record_def index_prev_def ex_record_def ex_aggregator_def ex_highlight_def
  Aggregator_init_def settings_def py_or_def Let_def enumerate_simps fl_small

lemma ex_highlights_eval:
  "detect_highlights ex_aggregator ex_records =
     Inr [ex_highlight 0 5 8, ex_highlight 15 25 7, ex_highlight 35 40 9]"
  by (simp add: ex_records_def ex_eval_simps)

lemma ex_short_eval:
  "detect_highlights ex_aggregator ex_short = Inr [ex_highlight 0 5 8]"
  by (simp add: ex_short_def ex_eval_simps)

lemma doubles_bounds: "0 < d01" "0 < d02" "d02 < 30" "0 < d07"
  by (simp_all add: doubles)

lemma ex_rounded_eval:
  "detect_highlights ex_aggregator ex_rounded = Inr [ex_highlight d01 d51 8]"
  by (simp add: ex_rounded_def ex_eval_simps fl_rounded_up)

lemma ex_rounded_frames_eval:
  "detect_static_segments ex_detector ex_rounded_cfd ex_rounded_frames 120 =
     Inr [\<lparr>seg_start = d02, seg_end = d12, reason = PRE_ARM, confidence = 9 / 10\<rparr>]"
proof -
  have "d02 \<noteq> 0" using doubles_bounds(2) by simp
  moreover have "[1..<3] = [1, 2]" by (simp add: upt_rec)
  ultimately show ?thesis
    using doubles_bounds(3)
    by (simp add: detect_static_segments_def static_loop_def static_finish_def static_step_def
        ex_detector_def ex_rounded_cfd_def ex_rounded_frames_def StaticDetector_init_def
        settings_def py_or_def classify_static_def mk_StaticSegment_def Let_def fl_rounded_up)
qed

lemma ex_valid: "\<forall>fa\<in>set ex_records. valid_record fa"
  by (simp add: ex_records_def ex_record_def valid_record_def)

lemma ex_frames_sorted: "sorted (map frame_timestamp ex_frames)"
  by (simp add: ex_frames_def)

lemma ex_records_sorted: "sorted (map timestamp ex_records)"
  by (simp add: ex_records_def ex_record_def)

lemma upt5: "[1..<5] = [1, 2, 3, 4]" by (simp add: upt_rec)

lemma still_scenario:
  assumes ts: "map frame_timestamp fr = [0, 1, 2, 3, 4]" and c: "\<forall>a b. d a b = 1 / 100"
  shows "\<exists>s. detect_static_segments (StaticDetector_init settings (Some (2 / 100)) (Some 1))
            d fr 120 = Inr [s] \<and> reason s = PRE_ARM"
proof -
  from ts obtain f0 f1 f2 f3 f4 where fr: "fr = [f0, f1, f2, f3, f4]"
    and t: "frame_timestamp f0 = 0" "frame_timestamp f4 = 4"
    by (auto simp: map_eq_Cons_conv)
  show ?thesis
    unfolding fr
    by (simp add: detect_static_segments_def static_loop_def static_finish_def static_step_def
      StaticDetector_init_def settings_def py_or_def classify_static_def mk_StaticSegment_def
      upt5 Let_def c t fl_small)
qed

lemma ex_zero_eval:
  "detect_highlights ex_zero_aggregator [ex_record 3 8] = Inr [ex_highlight 3 3 8]"
  by (simp add: ex_zero_aggregator_def ex_eval_simps)

section \<open>Counters, tag extraction and quality assessment\<close>

lemma set_first_seen [simp]: "set (first_seen xs) = set xs"
  by (induction xs) auto

lemma distinct_first_seen [simp]: "distinct (first_seen xs)"
  by (induction xs) auto

lemma first_seen_filter: "first_seen (filter P xs) = filter P (first_seen xs)"
proof (induction xs)
  case Nil
  then show ?case by simp
next
  case (Cons x xs)
  show ?case
  proof (cases "P x")
    case True
    then show ?thesis
      by (simp add: Cons.IH conj_commute)
  next
    case False
    then have "filter (\<lambda>y. P y \<and> y \<noteq> x) (first_seen xs) = filter P (first_seen xs)"
      by (intro filter_cong) auto
    with False show ?thesis by (simp add: Cons.IH conj_commute)
  qed
qed

lemma keys_counter_incr_old:
  "k \<in> fst ` set c \<Longrightarrow> map fst (counter_incr k c) = map fst c"
  by (induction c) force+

lemma keys_counter_incr_new:
  "k \<notin> fst ` set c \<Longrightarrow> map fst (counter_incr k c) = map fst c @ [k]"
  by (induction c) auto

lemma counter_get_incr:
  "counter_get (counter_incr k c) k' = counter_get c k' + (if k = k' then 1 else 0)"
  by (induction c) (auto simp: counter_get_def)

lemma keys_fold_incr:
  "map fst (fold counter_incr xs c) =
     map fst c @ first_seen (filter (\<lambda>x. x \<notin> fst ` set c) xs)"
proof (induction xs arbitrary: c)
  case Nil
  then show ?case by simp
next
  case (Cons x xs)
  show ?case
  proof (cases "x \<in> fst ` set c")
    case True
    have "set (map fst (counter_incr x c)) = set (map fst c)"
      using keys_counter_incr_old [OF True] by simp
    then have "fst ` set (counter_incr x c) = fst ` set c" by simp
    with True show ?thesis
      by (simp add: Cons.IH keys_counter_incr_old)
  next
    case False
    have "set (map fst (counter_incr x c)) = set (map fst c @ [x])"
      using keys_counter_incr_new [OF False] by simp
    then have keys: "fst ` set (counter_incr x c) = insert x (fst ` set c)" by simp
    have "filter (\<lambda>y. y \<noteq> x \<and> y \<notin> fst ` set c) xs =
        filter (\<lambda>y. y \<noteq> x) (filter (\<lambda>y. y \<notin> fst ` set c) xs)"
      by (simp add: conj_commute)
    with keys False show ?thesis
      by (simp add: Cons.IH keys_counter_incr_new first_seen_filter)
  qed
qed

lemma counter_get_fold_incr:
  "counter_get (fold counter_incr xs c) k = counter_get c k + int (count_list xs k)"
  by (induction xs arbitrary: c) (auto simp: counter_get_incr)

lemma keys_fold_incr_empty: "map fst (fold counter_incr xs []) = first_seen xs"
  by (simp add: keys_fold_incr)

lemma counter_get_fold_incr_empty:
  "counter_get (fold counter_incr xs []) k = int (count_list xs k)"
proof -
  have "counter_get [] k = 0" by (simp add: counter_get_def)
  then show ?thesis by (simp add: counter_get_fold_incr)
qed

lemma counter_items:
  "distinct (map fst c) \<Longrightarrow> c = map (\<lambda>k. (k, counter_get c k)) (map fst c)"
proof (induction c)
  case Nil
  then show ?case by simp
next
  case (Cons p c)
  obtain k n where p: "p = (k, n)" by (cases p)
  from Cons.prems p have k: "k \<notin> fst ` set c" and d: "distinct (map fst c)" by auto
  have "map (\<lambda>k'. (k', counter_get ((k, n) # c) k')) (map fst c) =
      map (\<lambda>k'. (k', counter_get c k')) (map fst c)"
    using k by (intro map_cong) (auto simp: counter_get_def)
  with Cons.IH [OF d] show ?case
    unfolding p by (simp add: counter_get_def)
qed

lemma filter_counter_items:
  assumes "distinct (map fst c)"
  shows "map fst (filter (\<lambda>(k, n). P n) c) = filter (\<lambda>k. P (counter_get c k)) (map fst c)"
proof -
  have "map fst (filter (\<lambda>(k, n). P n) (map (\<lambda>k. (k, g k)) ks)) = filter (\<lambda>k. P (g k)) ks"
    for g :: "'a \<Rightarrow> int" and ks
    by (induction ks) auto
  from this [of "counter_get c" "map fst c"] counter_items [OF assms] show ?thesis by simp
qed

text \<open>The counter of a list of observations.\<close>

lemma counted_filter:
  "map fst (filter (\<lambda>(k, n). P n) (fold counter_incr xs [])) =
     filter (\<lambda>k. P (int (count_list xs k))) (first_seen xs)"
proof -
  have d: "distinct (map fst (fold counter_incr xs []))"
    by (simp add: keys_fold_incr_empty)
  show ?thesis
    using filter_counter_items [OF d, of P]
    by (simp add: keys_fold_incr_empty counter_get_fold_incr_empty)
qed

lemma tally_record_fold:
  "tally_record fa c = fold counter_incr (observations fa) c"
  by (simp add: tally_record_def observations_def counted_style_def Let_def)

lemma fold_tally_record:
  "fold tally_record fas c = fold counter_incr (concat (map observations fas)) c"
  by (induction fas arbitrary: c) (simp_all add: tally_record_fold)

lemma tally_count: "tally fas t = int (count_list (concat (map observations fas)) t)"
  by (induction fas) (simp_all add: tally_def count_list_append)

lemma py_int_le:
  assumes n: "0 < n"
  shows "py_int x \<le> n \<longleftrightarrow> \<lfloor>x\<rfloor> \<le> n"
proof (cases "0 \<le> x")
  case True
  then show ?thesis by (simp add: py_int_def)
next
  case False
  then have "\<lceil>x\<rceil> \<le> 0" by (simp add: ceiling_le_zero)
  moreover have "\<lfloor>x\<rfloor> \<le> \<lceil>x\<rceil>" by (rule floor_le_ceiling)
  ultimately have "\<lceil>x\<rceil> \<le> n" "\<lfloor>x\<rfloor> \<le> n" using n by linarith+
  with False show ?thesis by (simp add: py_int_def)
qed

lemma tally_pos: "0 < tally fas t \<longleftrightarrow> t \<in> set (concat (map observations fas))"
  unfolding tally_count using count_list_0_iff [of "concat (map observations fas)" t]
  by (metis gr0I of_nat_0_less_iff less_numeral_extra(3))

lemma extract_tags_eq:
  "extract_tags self fas =
     sort_key (\<lambda>t. - tally fas t)
       (filter (\<lambda>t. py_int (fl (of_nat (length fas) * tag_threshold self)) \<le> tally fas t)
          (first_seen (concat (map observations fas))))"
proof (cases "fas = []")
  case True
  then show ?thesis by (simp add: extract_tags_def)
next
  case False
  let ?obs = "concat (map observations fas)"
  have get: "counter_get (fold counter_incr ?obs []) = tally fas"
    by (rule ext) (simp add: counter_get_fold_incr_empty tally_count)
  have flt: "map fst (filter (\<lambda>(tag, count). py_int (fl (of_nat (length fas) * tag_threshold self)) \<le> count)
       (fold counter_incr ?obs [])) =
     filter (\<lambda>t. py_int (fl (of_nat (length fas) * tag_threshold self)) \<le> tally fas t) (first_seen ?obs)"
    using counted_filter [of "\<lambda>n. py_int (fl (of_nat (length fas) * tag_threshold self)) \<le> n" ?obs]
    by (simp add: tally_count)
  from False show ?thesis
    by (simp add: extract_tags_def Let_def fold_tally_record sort_desc_def get flt)
qed

lemma ex_tagged_eval:
  "extract_tags ex_tag_aggregator ex_tagged = [''outdoor'', ''forest'', ''racing'']"
  by (simp add: extract_tags_def ex_tagged_def ex_tag_aggregator_def Aggregator_init_def
      settings_def py_or_def tally_record_def sort_desc_def counter_get_def py_int_def Let_def
      fl_small)

lemma ex_no_style_eval: "extract_tags ex_aggregator [ex_no_style] = []"
  by (simp add: extract_tags_def ex_no_style_def ex_aggregator_def Aggregator_init_def
      settings_def py_or_def tally_record_def sort_desc_def counter_get_def py_int_def Let_def
      fl_small)

lemma ex_ten_threshold: "tag_threshold ex_ten_aggregator = d07"
  using doubles_bounds(4) by (simp add: ex_ten_aggregator_def Aggregator_init_def py_or_def)

lemma ex_ten_eval: "extract_tags ex_ten_aggregator ex_ten = [''outdoor'']"
  by (simp add: extract_tags_def ex_ten_threshold ex_ten_def tally_record_def sort_desc_def
      counter_get_def py_int_def Let_def fl_rounded_up)

lemma deduct_deduction: "deduct issue s = s - deduction issue"
  by (simp add: deduct_def deduction_def)

lemma fold_deduct: "fold deduct sig s = s - sum_list (map deduction sig)"
  by (induction sig arbitrary: s) (simp_all add: deduct_deduction)

lemma score_issues_eq:
  "score_issues sig = max 1 (min 10 (10 - sum_list (map deduction sig)))"
  by (simp add: score_issues_def fold_deduct)

lemma issue_step_fields:
  "issue_counter (issue_step fa issue st) = counter_incr issue (issue_counter st)"
  "dvr_detected (issue_step fa issue st) = (dvr_detected st \<or> dvr_issue issue)"
  "signal_loss (issue_step fa issue st) =
     signal_loss st @ (if signal_issue issue then [(timestamp fa, timestamp fa + 1)] else [])"
  by (simp_all add: issue_step_def Let_def)

lemma fold_issue_step:
  "issue_counter (fold (issue_step fa) iss st) = fold counter_incr iss (issue_counter st)"
  "dvr_detected (fold (issue_step fa) iss st) = (dvr_detected st \<or> list_ex dvr_issue iss)"
  "signal_loss (fold (issue_step fa) iss st) =
     signal_loss st @ map (\<lambda>issue. (timestamp fa, timestamp fa + 1)) (filter signal_issue iss)"
  by (induction iss arbitrary: st) (simp_all add: issue_step_fields)

lemma fold_records:
  "issue_counter (fold (\<lambda>fa st. fold (issue_step fa) (quality_issues fa) st) fas st) =
     fold counter_incr (concat (map quality_issues fas)) (issue_counter st)"
  "dvr_detected (fold (\<lambda>fa st. fold (issue_step fa) (quality_issues fa) st) fas st) =
     (dvr_detected st \<or> list_ex (\<lambda>fa. list_ex dvr_issue (quality_issues fa)) fas)"
  "signal_loss (fold (\<lambda>fa st. fold (issue_step fa) (quality_issues fa) st) fas st) =
     signal_loss st @ concat (map (\<lambda>fa. map (\<lambda>issue. (timestamp fa, timestamp fa + 1))
       (filter signal_issue (quality_issues fa))) fas)"
  by (induction fas arbitrary: st) (simp_all add: fold_issue_step)

lemma collect_issues_fields:
  "issue_counter (collect_issues fas) = fold counter_incr (concat (map quality_issues fas)) []"
  "dvr_detected (collect_issues fas) = list_ex (\<lambda>fa. list_ex dvr_issue (quality_issues fa)) fas"
  "signal_loss (collect_issues fas) =
     concat (map (\<lambda>fa. map (\<lambda>issue. (timestamp fa, timestamp fa + 1))
       (filter signal_issue (quality_issues fa))) fas)"
  by (simp_all add: collect_issues_def fold_records)

lemma score_issues_range: "1 \<le> score_issues sig \<and> score_issues sig \<le> 10"
  by (simp add: score_issues_def Let_def)

lemma assess_quality_eq:
  "assess_quality fas =
     Inr (if fas = [] then QualityMetadata_default
          else \<lparr>overall_score =
                   score_issues (significant fas (issue_counter (collect_issues fas))),
                 issues = significant fas (issue_counter (collect_issues fas)),
                 dvr_artifacts_detected = dvr_detected (collect_issues fas),
                 signal_loss_segments = signal_loss (collect_issues fas)\<rparr>)"
  using score_issues_range [of "significant fas (issue_counter (collect_issues fas))"]
  by (simp add: assess_quality_def Let_def mk_QualityMetadata_def)

lemma issue_count_eq:
  "issue_count fas issue = int (count_list (concat (map quality_issues fas)) issue)"
  by (induction fas) (simp_all add: issue_count_def count_list_append)

lemma significant_eq:
  "significant fas (issue_counter (collect_issues fas)) =
     filter (\<lambda>issue. max 1 \<lfloor>real (length fas) / 10\<rfloor> \<le> issue_count fas issue)
       (first_seen (concat (map quality_issues fas)))"
proof -
  define th where "th = max 1 \<lfloor>real (length fas) / 10\<rfloor>"
  have pi: "py_int (of_int (int (length fas)) * (1 / 10)) = \<lfloor>real (length fas) / 10\<rfloor>"
    by (simp add: py_int_def)
  have "significant fas (issue_counter (collect_issues fas)) =
      map fst (filter (\<lambda>(issue, count). th \<le> count)
        (fold counter_incr (concat (map quality_issues fas)) []))"
    by (simp only: significant_def collect_issues_fields Let_def th_def pi)
  also have "\<dots> = filter (\<lambda>issue. th \<le> issue_count fas issue)
      (first_seen (concat (map quality_issues fas)))"
    using counted_filter [of "\<lambda>n. th \<le> n" "concat (map quality_issues fas)"]
    by (simp add: issue_count_eq)
  finally show ?thesis by (simp add: th_def)
qed





lemma concat_single_issue:
  "\<forall>fa\<in>set fas. quality_issues fa = [s] \<Longrightarrow>
     concat (map quality_issues fas) = replicate (length fas) s"
  by (induction fas) simp_all

lemma first_seen_replicate: "first_seen (replicate (Suc n) s) = [s]"
  by (induction n) simp_all

lemma count_list_replicate: "count_list (replicate n s) s = n"
  by (induction n) simp_all

lemma dvr_heavy:
  "dvr_issue ''dvr-artifact-heavy''" "deduction ''dvr-artifact-heavy'' = 3"
  by (simp_all add: dvr_issue_def deduction_def lower_def lower_char_def)

lemma dvr_scenario:
  assumes len: "length recs = 10"
    and all: "\<forall>fa\<in>set recs. quality_issues fa = [''dvr-artifact-heavy'']"
  shows "\<exists>q. assess_quality recs = Inr q \<and> dvr_artifacts_detected q \<and> overall_score q = 7"
proof -
  let ?s = "''dvr-artifact-heavy''"
  from len have ne: "recs \<noteq> []" by auto
  have obs: "concat (map quality_issues recs) = replicate (Suc 9) ?s"
    using concat_single_issue [OF all] len by simp
  have cnt: "issue_count recs ?s = 10"
    unfolding issue_count_eq obs count_list_replicate by simp
  have "significant recs (issue_counter (collect_issues recs)) = [?s]"
    unfolding significant_eq obs first_seen_replicate using cnt len by simp
  then have sc: "score_issues (significant recs (issue_counter (collect_issues recs))) = 7"
    by (simp add: score_issues_eq dvr_heavy)
  from ne obtain fa where "fa \<in> set recs" by (cases recs) auto
  with all have "list_ex (\<lambda>fa. list_ex dvr_issue (quality_issues fa)) recs"
    using dvr_heavy(1) by (auto simp: list_ex_iff)
  then have dvr: "dvr_detected (collect_issues recs)"
    by (simp add: collect_issues_fields)
  from ne sc dvr show ?thesis
    by (simp add: assess_quality_eq)
qed


section \<open>Claims\<close>

text \<open>
  C1 (amended): the boundary convention of the two detectors. An emitted static segment
  belongs to a static run \<open>(i, j)\<close>: it starts at the timestamp of sample \<open>i - 1\<close>, the
  sample before the first one whose dissimilarity is below the threshold, and ends at the
  timestamp of the exit sample \<open>j\<close>, or of the last sample when the series ends in the
  run. An emitted highlight belongs to a highlight run \<open>(i, j)\<close>: it starts at the
  timestamp of sample \<open>i\<close>, the first passing one, and ends at the timestamp of sample
  \<open>j - 1\<close>, the last passing one, whether the run is left at sample \<open>j\<close> or the series
  ends. Neither detection raises (dissimilarities non-negative or threshold positive;
  interest scores in 1..10).
\<close>

theorem run_boundaries:
  assumes ok: "0 < threshold sd \<or> nonneg_diffs cfd frames"
    and valid: "\<forall>fa\<in>set fas. valid_record fa"
  shows "(\<exists>segs. detect_static_segments sd cfd frames vd = Inr segs \<and>
            (\<forall>s\<in>set segs. \<exists>i j. static_run sd cfd frames i j \<and>
               seg_start s = frame_timestamp (frames ! (i - 1)) \<and>
               seg_end s = frame_timestamp
                 (frames ! (if j < length frames then j else length frames - 1)))) \<and>
         (\<exists>hs. detect_highlights ag fas = Inr hs \<and>
            (\<forall>h\<in>set hs. \<exists>i j. hl_run ag fas i j \<and>
               hl_start h = timestamp (fas ! i) \<and>
               hl_end h = timestamp (fas ! (j - 1))))"
proof
  from detect_static_total obtain segs where
    det: "detect_static_segments sd cfd frames vd = Inr segs" by blast
  from detect_static_emitted [OF det]
  have "\<forall>s\<in>set segs. \<exists>i j. static_run sd cfd frames i j \<and>
      seg_start s = frame_timestamp (frames ! (i - 1)) \<and>
      seg_end s = frame_timestamp (frames ! (if j < length frames then j else length frames - 1))"
    unfolding static_emitted_def by blast
  with det show "\<exists>segs. detect_static_segments sd cfd frames vd = Inr segs \<and>
      (\<forall>s\<in>set segs. \<exists>i j. static_run sd cfd frames i j \<and>
         seg_start s = frame_timestamp (frames ! (i - 1)) \<and>
         seg_end s = frame_timestamp
           (frames ! (if j < length frames then j else length frames - 1)))"
    by blast
next
  from detect_highlights_total [OF valid] obtain hs where
    det: "detect_highlights ag fas = Inr hs" by blast
  have "\<exists>i j. hl_run ag fas i j \<and> hl_start h = timestamp (fas ! i) \<and>
      hl_end h = timestamp (fas ! (j - 1))" if "h \<in> set hs" for h
  proof -
    from detect_highlights_emitted [OF det] that obtain i j where
      em: "hl_emitted ag fas h i j" by blast
    then have "create_highlight (timestamp (fas ! i)) (timestamp (fas ! (j - 1)))
        (slice fas i j) = Inr h" and "hl_run ag fas i j"
      by (simp_all add: hl_emitted_def)
    with create_highlight_Inr show ?thesis by blast
  qed
  with det show "\<exists>hs. detect_highlights ag fas = Inr hs \<and>
      (\<forall>h\<in>set hs. \<exists>i j. hl_run ag fas i j \<and> hl_start h = timestamp (fas ! i) \<and>
         hl_end h = timestamp (fas ! (j - 1)))"
    by blast
qed

theorem run_boundaries_witness:
  "(0 < threshold ex_detector \<or> nonneg_diffs ex_cfd ex_frames) \<and>
   list_all valid_record ex_records \<and>
   detect_static_segments ex_detector ex_cfd ex_frames 110 =
     Inr [\<lparr>seg_start = 0, seg_end = 40, reason = PRE_ARM, confidence = 0\<rparr>,
          \<lparr>seg_start = 40, seg_end = 44, reason = DVR_FREEZE, confidence = 0\<rparr>,
          \<lparr>seg_start = 100, seg_end = 104, reason = POST_LAND, confidence = 9 / 10\<rparr>] \<and>
   detect_highlights ex_aggregator ex_records =
     Inr [ex_highlight 0 5 8, ex_highlight 15 25 7, ex_highlight 35 40 9] \<and>
   (\<exists>segs. detect_static_segments ex_detector ex_cfd ex_frames 110 = Inr segs \<and>
      (\<forall>s\<in>set segs. \<exists>i j. static_run ex_detector ex_cfd ex_frames i j \<and>
         seg_start s = frame_timestamp (ex_frames ! (i - 1)) \<and>
         seg_end s = frame_timestamp
           (ex_frames ! (if j < length ex_frames then j else length ex_frames - 1)))) \<and>
   (\<exists>hs. detect_highlights ex_aggregator ex_records = Inr hs \<and>
      (\<forall>h\<in>set hs. \<exists>i j. hl_run ex_aggregator ex_records i j \<and>
         hl_start h = timestamp (ex_records ! i) \<and>
         hl_end h = timestamp (ex_records ! (j - 1))))"
proof -
  have ok: "0 < threshold ex_detector \<or> nonneg_diffs ex_cfd ex_frames"
    using ex_nonneg by simp
  have valid: "\<forall>fa\<in>set ex_records. valid_record fa" by (rule ex_valid)
  have valid': "list_all valid_record ex_records"
    using valid by (simp add: list_all_iff)
  note r = run_boundaries [OF ok valid, of 110 ex_aggregator]
  show ?thesis
    by (intro conjI ok valid' ex_static_eval ex_highlights_eval r [THEN conjunct1]
        r [THEN conjunct2])
qed

text \<open>
  C1 as stated fails for the highlight detector: on three records at 0 s, 5 s and 10 s
  with scores 8, 8 and 3 the run is left at the third record (10 s), and the emitted
  highlight ends at 5 s.
\<close>

theorem run_boundaries_counterexample:
  "detect_highlights ex_aggregator ex_short = Inr [ex_highlight 0 5 8] \<and>
   hl_end (ex_highlight 0 5 8) = 5 \<and>
   \<not> highlight_score_threshold ex_aggregator \<le> interest_score (ex_short ! 2) \<and>
   timestamp (ex_short ! 2) = 10 \<and>
   \<not> claimed_highlight_bounds ex_aggregator ex_short [ex_highlight 0 5 8]"
proof -
  have len: "length ex_short = 3" by (simp add: ex_short_def)
  have ts: "timestamp (ex_short ! 2) = 10"
    by (simp add: ex_short_def ex_record_def)
  have e: "hl_end (ex_highlight 0 5 8) = 5" by (simp add: ex_highlight_def)
  have thr: "highlight_score_threshold ex_aggregator = 7"
    by (simp add: ex_aggregator_def Aggregator_init_def settings_def py_or_def)
  have sc: "interest_score (ex_short ! 1) = 8" "interest_score (ex_short ! 2) = 3"
    by (simp_all add: ex_short_def ex_record_def)
  have no: "\<not> (hl_run ex_aggregator ex_short i j \<and>
      hl_end (ex_highlight 0 5 8) =
        timestamp (ex_short ! (if j < length ex_short then j else length ex_short - 1)))"
    for i j
  proof
    assume a: "hl_run ex_aggregator ex_short i j \<and>
      hl_end (ex_highlight 0 5 8) =
        timestamp (ex_short ! (if j < length ex_short then j else length ex_short - 1))"
    then have ij: "i < j" and j: "j \<le> 3"
      and right: "j = 3 \<or> \<not> 7 \<le> interest_score (ex_short ! j)"
      and eq: "5 = timestamp (ex_short ! (if j < 3 then j else 2))"
      unfolding hl_run_def len thr e by (auto split: if_splits)
    from ij j consider "j = 1" | "j = 2" | "j = 3" by linarith
    then show False
    proof cases
      case 1
      with right sc show False by simp
    next
      case 2
      with eq ts show False by simp
    next
      case 3
      with eq ts show False by simp
    qed
  qed
  then have "\<not> claimed_highlight_bounds ex_aggregator ex_short [ex_highlight 0 5 8]"
    unfolding claimed_highlight_bounds_def by simp
  with ex_short_eval e ts sc thr show ?thesis by simp
qed

text \<open>
  C2: the score of every emitted highlight is the floor of the arithmetic mean of the
  interest scores of the run's member records; members with scores 6, 9, 8 give 7, and
  members with scores 7, 8 give 7.
\<close>

theorem highlight_score_floor_mean:
  assumes valid: "\<forall>fa\<in>set fas. valid_record fa"
  shows "(\<exists>hs. detect_highlights ag fas = Inr hs \<and>
            (\<forall>h\<in>set hs. \<exists>i j. hl_run ag fas i j \<and>
               hl_start h = timestamp (fas ! i) \<and> hl_end h = timestamp (fas ! (j - 1)) \<and>
               score h = \<lfloor>mean (map interest_score (slice fas i j))\<rfloor>)) \<and>
         (map interest_score members = [6, 9, 8] \<longrightarrow>
            (\<exists>h. create_highlight s e members = Inr h \<and> score h = 7)) \<and>
         (map interest_score members' = [7, 8] \<longrightarrow>
            (\<exists>h. create_highlight s e members' = Inr h \<and> score h = 7))"
proof (intro conjI impI)
  from detect_highlights_total [OF valid] obtain hs where
    det: "detect_highlights ag fas = Inr hs" by blast
  have "\<exists>i j. hl_run ag fas i j \<and> hl_start h = timestamp (fas ! i) \<and>
      hl_end h = timestamp (fas ! (j - 1)) \<and>
      score h = \<lfloor>mean (map interest_score (slice fas i j))\<rfloor>" if "h \<in> set hs" for h
  proof -
    from detect_highlights_emitted [OF det] that obtain i j where
      em: "hl_emitted ag fas h i j" by blast
    then have c: "create_highlight (timestamp (fas ! i)) (timestamp (fas ! (j - 1)))
        (slice fas i j) = Inr h" and run: "hl_run ag fas i j"
      by (simp_all add: hl_emitted_def)
    from create_highlight_Inr [OF c] run show ?thesis
      by (auto simp: floor_mean_div)
  qed
  with det show "\<exists>hs. detect_highlights ag fas = Inr hs \<and>
      (\<forall>h\<in>set hs. \<exists>i j. hl_run ag fas i j \<and>
         hl_start h = timestamp (fas ! i) \<and> hl_end h = timestamp (fas ! (j - 1)) \<and>
         score h = \<lfloor>mean (map interest_score (slice fas i j))\<rfloor>)"
    by blast
next
  assume m: "map interest_score members = [6, 9, 8]"
  then have "members \<noteq> []" "\<forall>f\<in>set members. valid_record f"
    by (auto simp: valid_record_def)
  from create_highlight_total [OF this] obtain h where
    h: "create_highlight s e members = Inr h" by blast
  from m have "length (map interest_score members) = 3" by simp
  then have "length members = 3" by simp
  with create_highlight_Inr [OF h] m have "score h = 7" by simp
  with h show "\<exists>h. create_highlight s e members = Inr h \<and> score h = 7" by blast
next
  assume m: "map interest_score members' = [7, 8]"
  then have "members' \<noteq> []" "\<forall>f\<in>set members'. valid_record f"
    by (auto simp: valid_record_def)
  from create_highlight_total [OF this] obtain h where
    h: "create_highlight s e members' = Inr h" by blast
  from m have "length (map interest_score members') = 2" by simp
  then have "length members' = 2" by simp
  with create_highlight_Inr [OF h] m have "score h = 7" by simp
  with h show "\<exists>h. create_highlight s e members' = Inr h \<and> score h = 7" by blast
qed

theorem highlight_score_floor_mean_witness:
  "list_all valid_record ex_records \<and>
   map interest_score [ex_record 0 6, ex_record 1 9, ex_record 2 8] = [6, 9, 8] \<and>
   map interest_score [ex_record 0 7, ex_record 1 8] = [7, 8] \<and>
   detect_highlights ex_aggregator ex_records =
     Inr [ex_highlight 0 5 8, ex_highlight 15 25 7, ex_highlight 35 40 9] \<and>
   (\<exists>hs. detect_highlights ex_aggregator ex_records = Inr hs \<and>
      (\<forall>h\<in>set hs. \<exists>i j. hl_run ex_aggregator ex_records i j \<and>
         hl_start h = timestamp (ex_records ! i) \<and>
         hl_end h = timestamp (ex_records ! (j - 1)) \<and>
         score h = \<lfloor>mean (map interest_score (slice ex_records i j))\<rfloor>)) \<and>
   (\<exists>h. create_highlight 0 2 [ex_record 0 6, ex_record 1 9, ex_record 2 8] = Inr h \<and>
      score h = 7) \<and>
   (\<exists>h. create_highlight 0 1 [ex_record 0 7, ex_record 1 8] = Inr h \<and> score h = 7)"
proof -
  have valid: "\<forall>fa\<in>set ex_records. valid_record fa" by (rule ex_valid)
  have valid': "list_all valid_record ex_records"
    using valid by (simp add: list_all_iff)
  have m1: "map interest_score [ex_record 0 6, ex_record 1 9, ex_record 2 8] = [6, 9, 8]"
    and m2: "map interest_score [ex_record 0 7, ex_record 1 8] = [7, 8]"
    by (simp_all add: ex_record_def)
  note r = highlight_score_floor_mean [OF valid, of ex_aggregator
      "[ex_record 0 6, ex_record 1 9, ex_record 2 8]" 0 2 "[ex_record 0 7, ex_record 1 8]"]
  note r1 = r [THEN conjunct1]
  note r2 = r [THEN conjunct2, THEN conjunct1, rule_format, OF m1]
  have r3: "\<exists>h. create_highlight 0 1 [ex_record 0 7, ex_record 1 8] = Inr h \<and> score h = 7"
    using highlight_score_floor_mean [OF valid, of ex_aggregator
      "[ex_record 0 6, ex_record 1 9, ex_record 2 8]" 0 1 "[ex_record 0 7, ex_record 1 8]"] m2
    by blast
  show ?thesis
    by (intro conjI valid' m1 m2 ex_highlights_eval r1 r2 r3)
qed

text \<open>
  C3 (amended): for every emitted run (static segment or highlight) the float difference
  of its end and its start, the rounded difference the code compares, is at least the
  minimum duration; and on a series in time order (timestamps non-decreasing, as the
  data model has them) no run begins before the previous one has ended, and the runs are
  in non-decreasing order of their start. Two static segments may share an end point: the
  exit sample of one run can be the sample before the next run's entry.
\<close>

theorem emitted_runs_ordered:
  assumes valid: "\<forall>fa\<in>set fas. valid_record fa"
  shows "(\<exists>segs. detect_static_segments sd cfd frames vd = Inr segs \<and>
            (\<forall>s\<in>set segs. min_duration sd \<le> fl (seg_end s - seg_start s)) \<and>
            (sorted (map frame_timestamp frames) \<longrightarrow>
               sorted_wrt (\<lambda>a b. seg_end a \<le> seg_start b) segs \<and>
               sorted_wrt (\<lambda>a b. seg_start a \<le> seg_start b) segs)) \<and>
         (\<exists>hs. detect_highlights ag fas = Inr hs \<and>
            (\<forall>h\<in>set hs. highlight_min_duration ag \<le> fl (hl_end h - hl_start h)) \<and>
            (sorted (map timestamp fas) \<longrightarrow>
               sorted_wrt (\<lambda>a b. hl_end a \<le> hl_start b) hs \<and>
               sorted_wrt (\<lambda>a b. hl_start a \<le> hl_start b) hs))"
proof
  from detect_static_total obtain segs where
    det: "detect_static_segments sd cfd frames vd = Inr segs" by blast
  from detect_static_emitted [OF det]
  have dur: "\<forall>s\<in>set segs. min_duration sd \<le> fl (seg_end s - seg_start s)"
    unfolding static_emitted_def by blast
  have ord: "sorted_wrt (\<lambda>a b. seg_end a \<le> seg_start b) segs \<and>
      sorted_wrt (\<lambda>a b. seg_start a \<le> seg_start b) segs"
    if "sorted (map frame_timestamp frames)"
    using detect_static_ordered [OF det that] sorted_wrt_starts by blast
  from det dur ord show "\<exists>segs. detect_static_segments sd cfd frames vd = Inr segs \<and>
      (\<forall>s\<in>set segs. min_duration sd \<le> fl (seg_end s - seg_start s)) \<and>
      (sorted (map frame_timestamp frames) \<longrightarrow>
         sorted_wrt (\<lambda>a b. seg_end a \<le> seg_start b) segs \<and>
         sorted_wrt (\<lambda>a b. seg_start a \<le> seg_start b) segs)"
    by blast
next
  from detect_highlights_total [OF valid] obtain hs where
    det: "detect_highlights ag fas = Inr hs" by blast
  have dur: "highlight_min_duration ag \<le> fl (hl_end h - hl_start h)" if "h \<in> set hs" for h
  proof -
    from detect_highlights_emitted [OF det] that obtain i j where
      em: "hl_emitted ag fas h i j" by blast
    then have c: "create_highlight (timestamp (fas ! i)) (timestamp (fas ! (j - 1)))
        (slice fas i j) = Inr h"
      and d: "highlight_min_duration ag \<le> fl (timestamp (fas ! (j - 1)) - timestamp (fas ! i))"
      by (simp_all add: hl_emitted_def)
    from create_highlight_Inr [OF c] d show ?thesis by simp
  qed
  have ord: "sorted_wrt (\<lambda>a b. hl_end a \<le> hl_start b) hs \<and>
      sorted_wrt (\<lambda>a b. hl_start a \<le> hl_start b) hs"
    if "sorted (map timestamp fas)"
    using detect_highlights_ordered [OF det that] sorted_wrt_starts by blast
  from det dur ord show "\<exists>hs. detect_highlights ag fas = Inr hs \<and>
      (\<forall>h\<in>set hs. highlight_min_duration ag \<le> fl (hl_end h - hl_start h)) \<and>
      (sorted (map timestamp fas) \<longrightarrow>
         sorted_wrt (\<lambda>a b. hl_end a \<le> hl_start b) hs \<and>
         sorted_wrt (\<lambda>a b. hl_start a \<le> hl_start b) hs)"
    by blast
qed

theorem emitted_runs_ordered_witness:
  "list_all valid_record ex_records \<and>
   sorted (map frame_timestamp ex_frames) \<and> sorted (map timestamp ex_records) \<and>
   detect_static_segments ex_detector ex_cfd ex_frames 110 =
     Inr [\<lparr>seg_start = 0, seg_end = 40, reason = PRE_ARM, confidence = 0\<rparr>,
          \<lparr>seg_start = 40, seg_end = 44, reason = DVR_FREEZE, confidence = 0\<rparr>,
          \<lparr>seg_start = 100, seg_end = 104, reason = POST_LAND, confidence = 9 / 10\<rparr>] \<and>
   detect_highlights ex_aggregator ex_records =
     Inr [ex_highlight 0 5 8, ex_highlight 15 25 7, ex_highlight 35 40 9] \<and>
   (\<exists>segs. detect_static_segments ex_detector ex_cfd ex_frames 110 = Inr segs \<and>
      (\<forall>s\<in>set segs. min_duration ex_detector \<le> fl (seg_end s - seg_start s)) \<and>
      sorted_wrt (\<lambda>a b. seg_end a \<le> seg_start b) segs \<and>
      sorted_wrt (\<lambda>a b. seg_start a \<le> seg_start b) segs) \<and>
   (\<exists>hs. detect_highlights ex_aggregator ex_records = Inr hs \<and>
      (\<forall>h\<in>set hs. highlight_min_duration ex_aggregator \<le> fl (hl_end h - hl_start h)) \<and>
      sorted_wrt (\<lambda>a b. hl_end a \<le> hl_start b) hs \<and>
      sorted_wrt (\<lambda>a b. hl_start a \<le> hl_start b) hs)"
proof -
  have valid: "\<forall>fa\<in>set ex_records. valid_record fa" by (rule ex_valid)
  have valid': "list_all valid_record ex_records"
    using valid by (simp add: list_all_iff)
  note r = emitted_runs_ordered [OF valid, of ex_detector ex_cfd ex_frames 110 ex_aggregator]
  have r1: "\<exists>segs. detect_static_segments ex_detector ex_cfd ex_frames 110 = Inr segs \<and>
      (\<forall>s\<in>set segs. min_duration ex_detector \<le> fl (seg_end s - seg_start s)) \<and>
      sorted_wrt (\<lambda>a b. seg_end a \<le> seg_start b) segs \<and>
      sorted_wrt (\<lambda>a b. seg_start a \<le> seg_start b) segs"
    using r [THEN conjunct1] ex_frames_sorted by blast
  have r2: "\<exists>hs. detect_highlights ex_aggregator ex_records = Inr hs \<and>
      (\<forall>h\<in>set hs. highlight_min_duration ex_aggregator \<le> fl (hl_end h - hl_start h)) \<and>
      sorted_wrt (\<lambda>a b. hl_end a \<le> hl_start b) hs \<and>
      sorted_wrt (\<lambda>a b. hl_start a \<le> hl_start b) hs"
    using r [THEN conjunct2] ex_records_sorted by blast
  show ?thesis
    by (intro conjI valid' ex_frames_sorted ex_records_sorted ex_static_eval
        ex_highlights_eval r1 r2)
qed

text \<open>
  C3 as stated fails by the rounding of the duration. Two records at the doubles written
  0.1 and 5.1 are emitted as one highlight under the minimum duration 5, because the
  float difference is 5.0; the difference of the two timestamps is below 5. Likewise a
  static segment from the double written 0.2 to the double written 1.2 is emitted under
  the minimum duration 1, and the difference of its end and start is below 1.
\<close>

theorem emitted_runs_ordered_counterexample:
  "detect_highlights ex_aggregator ex_rounded = Inr [ex_highlight d01 d51 8] \<and>
   highlight_min_duration ex_aggregator = 5 \<and>
   hl_end (ex_highlight d01 d51 8) - hl_start (ex_highlight d01 d51 8) < 5 \<and>
   detect_static_segments ex_detector ex_rounded_cfd ex_rounded_frames 120 =
     Inr [\<lparr>seg_start = d02, seg_end = d12, reason = PRE_ARM, confidence = 9 / 10\<rparr>] \<and>
   min_duration ex_detector = 1 \<and>
   seg_end \<lparr>seg_start = d02, seg_end = d12, reason = PRE_ARM, confidence = 9 / 10\<rparr> -
     seg_start \<lparr>seg_start = d02, seg_end = d12, reason = PRE_ARM, confidence = 9 / 10\<rparr> < 1"
proof -
  have m: "highlight_min_duration ex_aggregator = 5" "min_duration ex_detector = 1"
    by (simp_all add: ex_aggregator_def ex_detector_def Aggregator_init_def
        StaticDetector_init_def settings_def py_or_def)
  have h: "hl_end (ex_highlight d01 d51 8) - hl_start (ex_highlight d01 d51 8) < 5"
    using fl_rounded_up(2) by (simp add: ex_highlight_def)
  have g: "seg_end \<lparr>seg_start = d02, seg_end = d12, reason = PRE_ARM, confidence = 9 / 10\<rparr> -
     seg_start \<lparr>seg_start = d02, seg_end = d12, reason = PRE_ARM, confidence = 9 / 10\<rparr> < 1"
    using fl_rounded_up(4) by simp
  show ?thesis
    by (intro conjI ex_rounded_eval m h ex_rounded_frames_eval g)
qed

text \<open>
  C4: the overall score starts at 10; each significant issue deducts the points of the
  first category that matches it, in the order blur (2), artifact or dvr (3), signal or
  loss (4), fog or weather (1), and nothing when none matches; the result is clamped to
  1..10. This holds for every list of issue strings; in an assessment the significant
  issues are the distinct issue strings that occur at least max(1, floor(n / 10)) times,
  so each deducts once. Ten records that each carry the one issue
  \<open>dvr-artifact-heavy\<close> give \<open>dvr_artifacts_detected\<close> and the score 7.
\<close>

theorem quality_score:
  "score_issues sig = max 1 (min 10 (10 - sum_list (map deduction sig))) \<and>
   (fas \<noteq> [] \<longrightarrow>
      (\<exists>q. assess_quality fas = Inr q \<and> distinct (issues q) \<and>
         set (issues q) = {i. max 1 \<lfloor>real (length fas) / 10\<rfloor> \<le> issue_count fas i} \<and>
         overall_score q = max 1 (min 10 (10 - sum_list (map deduction (issues q)))))) \<and>
   (length recs = 10 \<longrightarrow> (\<forall>fa\<in>set recs. quality_issues fa = [''dvr-artifact-heavy'']) \<longrightarrow>
      (\<exists>q. assess_quality recs = Inr q \<and> dvr_artifacts_detected q \<and> overall_score q = 7))"
proof (intro conjI impI)
  show "score_issues sig = max 1 (min 10 (10 - sum_list (map deduction sig)))"
    by (rule score_issues_eq)
next
  assume ne: "fas \<noteq> []"
  let ?sig = "significant fas (issue_counter (collect_issues fas))"
  let ?all = "concat (map quality_issues fas)"
  have d: "distinct ?sig" unfolding significant_eq by simp
  have "i \<in> set ?all" if "max 1 \<lfloor>real (length fas) / 10\<rfloor> \<le> issue_count fas i" for i
  proof -
    from that have "0 < count_list ?all i" by (simp add: issue_count_eq)
    then show ?thesis using count_list_0_iff [of ?all i] by auto
  qed
  then have s: "set ?sig = {i. max 1 \<lfloor>real (length fas) / 10\<rfloor> \<le> issue_count fas i}"
    unfolding significant_eq by auto
  from ne d s show "\<exists>q. assess_quality fas = Inr q \<and> distinct (issues q) \<and>
      set (issues q) = {i. max 1 \<lfloor>real (length fas) / 10\<rfloor> \<le> issue_count fas i} \<and>
      overall_score q = max 1 (min 10 (10 - sum_list (map deduction (issues q))))"
    by (simp add: assess_quality_eq score_issues_eq)
next
  assume "length recs = 10" "\<forall>fa\<in>set recs. quality_issues fa = [''dvr-artifact-heavy'']"
  then show "\<exists>q. assess_quality recs = Inr q \<and> dvr_artifacts_detected q \<and> overall_score q = 7"
    by (rule dvr_scenario)
qed

theorem quality_score_witness:
  "ex_dvr \<noteq> [] \<and> length ex_dvr = 10 \<and>
   list_all (\<lambda>fa. quality_issues fa = [''dvr-artifact-heavy'']) ex_dvr \<and>
   score_issues [''motion blur'', ''DVR overlay'', ''light fog'', ''glare''] = 4 \<and>
   (\<exists>q. assess_quality ex_dvr = Inr q \<and> distinct (issues q) \<and>
      set (issues q) = {i. max 1 \<lfloor>real (length ex_dvr) / 10\<rfloor> \<le> issue_count ex_dvr i} \<and>
      overall_score q = max 1 (min 10 (10 - sum_list (map deduction (issues q))))) \<and>
   (\<exists>q. assess_quality ex_dvr = Inr q \<and> dvr_artifacts_detected q \<and> overall_score q = 7)"
proof -
  have ne: "ex_dvr \<noteq> []" and len: "length ex_dvr = 10"
    by (simp_all add: ex_dvr_def)
  have all: "\<forall>fa\<in>set ex_dvr. quality_issues fa = [''dvr-artifact-heavy'']"
    by (simp add: ex_dvr_def)
  then have all': "list_all (\<lambda>fa. quality_issues fa = [''dvr-artifact-heavy'']) ex_dvr"
    by (simp add: list_all_iff)
  note r = quality_score [of "[''motion blur'', ''DVR overlay'', ''light fog'', ''glare'']"
      ex_dvr ex_dvr]
  have r1: "score_issues [''motion blur'', ''DVR overlay'', ''light fog'', ''glare''] = 4"
    using r [THEN conjunct1]
    by (simp add: deduction_def lower_def lower_char_def)
  note r2 = r [THEN conjunct2, THEN conjunct1, rule_format, OF ne]
  note r3 = r [THEN conjunct2, THEN conjunct2, rule_format, OF len all [rule_format]]
  show ?thesis
    by (intro conjI ne len all' r1 r2 r3)
qed

text \<open>
  C5 (amended): tag extraction tallies every record's environment tags and its flight
  style, leaving out a flight style that is empty, \<open>unknown\<close> or \<open>stationary\<close>; it
  returns exactly the tallied tags whose count is at least
  floor(totalRecords * frequencyThreshold), the product being the rounded float product
  of the code, each once, sorted by descending count, and tags of equal count stay in
  the order in which they were first observed.
\<close>

theorem tag_extraction:
  "set (extract_tags self fas) =
     {t. 0 < tally fas t \<and> \<lfloor>fl (of_nat (length fas) * tag_threshold self)\<rfloor> \<le> tally fas t} \<and>
   distinct (extract_tags self fas) \<and>
   sorted_wrt (\<lambda>a b. tally fas b \<le> tally fas a) (extract_tags self fas) \<and>
   (\<forall>c. filter (\<lambda>t. tally fas t = c) (extract_tags self fas) =
      filter (\<lambda>t. tally fas t = c \<and> \<lfloor>fl (of_nat (length fas) * tag_threshold self)\<rfloor> \<le> c)
        (first_seen (concat (map observations fas))))"
proof (intro conjI allI)
  let ?obs = "concat (map observations fas)"
  let ?x = "fl (of_nat (length fas) * tag_threshold self)"
  let ?kept = "filter (\<lambda>t. py_int ?x \<le> tally fas t) (first_seen ?obs)"
  have kept: "?kept = filter (\<lambda>t. \<lfloor>?x\<rfloor> \<le> tally fas t) (first_seen ?obs)"
    by (intro filter_cong refl py_int_le) (simp add: tally_pos)
  have eq: "extract_tags self fas =
      sort_key (\<lambda>t. - tally fas t) (filter (\<lambda>t. \<lfloor>?x\<rfloor> \<le> tally fas t) (first_seen ?obs))"
    using extract_tags_eq [of self fas] kept by simp
  show "set (extract_tags self fas) = {t. 0 < tally fas t \<and> \<lfloor>?x\<rfloor> \<le> tally fas t}"
    unfolding eq by (auto simp: tally_pos)
  show "distinct (extract_tags self fas)"
    unfolding eq by simp
  have "sorted (map (\<lambda>t. - tally fas t) (extract_tags self fas))"
    unfolding eq by (rule sorted_sort_key)
  then show "sorted_wrt (\<lambda>a b. tally fas b \<le> tally fas a) (extract_tags self fas)"
    by (simp add: sorted_map)
  show "filter (\<lambda>t. tally fas t = c) (extract_tags self fas) =
      filter (\<lambda>t. tally fas t = c \<and> \<lfloor>?x\<rfloor> \<le> c) (first_seen ?obs)" for c
  proof -
    have "filter (\<lambda>t. tally fas t = c) (extract_tags self fas) =
        filter (\<lambda>t. - tally fas t = - c) (extract_tags self fas)"
      by simp
    also have "\<dots> = filter (\<lambda>t. - tally fas t = - c)
        (filter (\<lambda>t. \<lfloor>?x\<rfloor> \<le> tally fas t) (first_seen ?obs))"
      unfolding eq by (rule sort_key_stable)
    also have "\<dots> = filter (\<lambda>t. tally fas t = c \<and> \<lfloor>?x\<rfloor> \<le> c) (first_seen ?obs)"
      by (auto intro: filter_cong)
    finally show ?thesis .
  qed
qed

theorem tag_extraction_witness:
  "extract_tags ex_tag_aggregator ex_tagged = [''outdoor'', ''forest'', ''racing''] \<and>
   tally ex_tagged ''outdoor'' = 4 \<and> tally ex_tagged ''forest'' = 2 \<and>
   tally ex_tagged ''racing'' = 2 \<and> tally ex_tagged ''urban'' = 1 \<and>
   \<lfloor>fl (of_nat (length ex_tagged) * tag_threshold ex_tag_aggregator)\<rfloor> = 2 \<and>
   set (extract_tags ex_tag_aggregator ex_tagged) =
     {t. 0 < tally ex_tagged t \<and>
         \<lfloor>fl (of_nat (length ex_tagged) * tag_threshold ex_tag_aggregator)\<rfloor>
           \<le> tally ex_tagged t} \<and>
   sorted_wrt (\<lambda>a b. tally ex_tagged b \<le> tally ex_tagged a)
     (extract_tags ex_tag_aggregator ex_tagged) \<and>
   extract_tags ex_ten_aggregator ex_ten = [''outdoor''] \<and>
   tally ex_ten ''outdoor'' = 10 \<and> tally ex_ten ''forest'' = 6 \<and>
   \<lfloor>fl (of_nat (length ex_ten) * tag_threshold ex_ten_aggregator)\<rfloor> = 7 \<and>
   \<lfloor>of_nat (length ex_ten) * tag_threshold ex_ten_aggregator\<rfloor> = 6 \<and>
   set (extract_tags ex_ten_aggregator ex_ten) =
     {t. 0 < tally ex_ten t \<and>
         \<lfloor>fl (of_nat (length ex_ten) * tag_threshold ex_ten_aggregator)\<rfloor>
           \<le> tally ex_ten t}"
proof -
  have t: "tally ex_tagged ''outdoor'' = 4" "tally ex_tagged ''forest'' = 2"
    "tally ex_tagged ''racing'' = 2" "tally ex_tagged ''urban'' = 1"
    by (simp_all add: tally_def ex_tagged_def observations_def counted_style_def)
  have f: "\<lfloor>fl (of_nat (length ex_tagged) * tag_threshold ex_tag_aggregator)\<rfloor> = 2"
    by (simp add: ex_tagged_def ex_tag_aggregator_def Aggregator_init_def py_or_def fl_small)
  have t10: "tally ex_ten ''outdoor'' = 10" "tally ex_ten ''forest'' = 6"
    by (simp_all add: tally_def ex_ten_def observations_def counted_style_def)
  have len: "length ex_ten = 10" by (simp add: ex_ten_def)
  have f10: "\<lfloor>fl (of_nat (length ex_ten) * tag_threshold ex_ten_aggregator)\<rfloor> = 7"
    "\<lfloor>of_nat (length ex_ten) * tag_threshold ex_ten_aggregator\<rfloor> = 6"
    by (simp_all add: len ex_ten_threshold fl_rounded_up)
  note r = tag_extraction [of ex_tag_aggregator ex_tagged]
  note r10 = tag_extraction [of ex_ten_aggregator ex_ten]
  show ?thesis
    by (intro conjI ex_tagged_eval t f r [THEN conjunct1]
        r [THEN conjunct2, THEN conjunct2, THEN conjunct1] ex_ten_eval t10 f10
        r10 [THEN conjunct1])
qed

text \<open>
  C5 as stated fails on a record without a flight style (the schema's default, the empty
  string): leaving out only \<open>unknown\<close> and \<open>stationary\<close>, the empty string is tallied
  once and reaches the threshold count 0, yet it is not among the extracted tags.
\<close>

theorem tag_extraction_counterexample:
  "flight_style ex_no_style = [] \<and>
   claimed_tally [ex_no_style] [] = 1 \<and>
   \<lfloor>fl (of_nat (length [ex_no_style]) * tag_threshold ex_aggregator)\<rfloor> = 0 \<and>
   extract_tags ex_aggregator [ex_no_style] = [] \<and>
   \<not> claimed_tags ex_aggregator [ex_no_style]"
proof -
  have c: "claimed_tally [ex_no_style] [] = 1"
    by (simp add: claimed_tally_def ex_no_style_def)
  have f: "\<lfloor>fl (of_nat (length [ex_no_style]) * tag_threshold ex_aggregator)\<rfloor> = 0"
    by (simp add: ex_aggregator_def Aggregator_init_def settings_def py_or_def fl_eval)
  have "[] \<in> {t. 0 < claimed_tally [ex_no_style] t \<and>
      \<lfloor>fl (of_nat (length [ex_no_style]) * tag_threshold ex_aggregator)\<rfloor>
        \<le> claimed_tally [ex_no_style] t}"
    using f c by simp
  then have "\<not> claimed_tags ex_aggregator [ex_no_style]"
    unfolding claimed_tags_def ex_no_style_eval by auto
  with c f ex_no_style_eval show ?thesis
    by (simp add: ex_no_style_def)
qed

text \<open>
  C6: the classification checks a start below 30 s first (PRE_ARM), then an end beyond
  the video duration minus 30 s (POST_LAND), and is DVR_FREEZE otherwise; every emitted
  segment carries the reason so computed from its own start and end. Five samples at
  0..4 s with a constant dissimilarity 0.01, threshold 0.02, minimum duration 1 and video
  duration 120 give exactly one segment, classified PRE_ARM.
\<close>

theorem static_classification:
  assumes ok: "0 < threshold sd \<or> nonneg_diffs cfd frames"
  shows "classify_static start end' vd =
           (if start < 30 then PRE_ARM else if vd - 30 < end' then POST_LAND else DVR_FREEZE) \<and>
         (\<exists>segs. detect_static_segments sd cfd frames vd = Inr segs \<and>
            (\<forall>s\<in>set segs. reason s =
               (if seg_start s < 30 then PRE_ARM
                else if vd - 30 < seg_end s then POST_LAND else DVR_FREEZE))) \<and>
         (map frame_timestamp fr = [0, 1, 2, 3, 4] \<longrightarrow> (\<forall>a b. d a b = 1 / 100) \<longrightarrow>
            (\<exists>s. detect_static_segments (StaticDetector_init settings (Some (2 / 100)) (Some 1))
                    d fr 120 = Inr [s] \<and> reason s = PRE_ARM))"
proof (intro conjI impI)
  show "classify_static start end' vd =
      (if start < 30 then PRE_ARM else if vd - 30 < end' then POST_LAND else DVR_FREEZE)"
    by (simp add: classify_static_def)
next
  from detect_static_total obtain segs where
    det: "detect_static_segments sd cfd frames vd = Inr segs" by blast
  from detect_static_emitted [OF det]
  have "\<forall>s\<in>set segs. reason s = classify_static (seg_start s) (seg_end s) vd"
    unfolding static_emitted_def by blast
  then have "\<forall>s\<in>set segs. reason s =
      (if seg_start s < 30 then PRE_ARM
       else if vd - 30 < seg_end s then POST_LAND else DVR_FREEZE)"
    by (simp add: classify_static_def)
  with det show "\<exists>segs. detect_static_segments sd cfd frames vd = Inr segs \<and>
      (\<forall>s\<in>set segs. reason s =
         (if seg_start s < 30 then PRE_ARM
          else if vd - 30 < seg_end s then POST_LAND else DVR_FREEZE))"
    by blast
next
  assume "map frame_timestamp fr = [0, 1, 2, 3, 4]" "\<forall>a b. d a b = 1 / 100"
  then show "\<exists>s. detect_static_segments (StaticDetector_init settings (Some (2 / 100)) (Some 1))
      d fr 120 = Inr [s] \<and> reason s = PRE_ARM"
    by (rule still_scenario)
qed

theorem static_classification_witness:
  "(0 < threshold ex_detector \<or> nonneg_diffs ex_cfd ex_frames) \<and>
   map frame_timestamp ex_still = [0, 1, 2, 3, 4] \<and>
   detect_static_segments ex_detector ex_cfd ex_frames 110 =
     Inr [\<lparr>seg_start = 0, seg_end = 40, reason = PRE_ARM, confidence = 0\<rparr>,
          \<lparr>seg_start = 40, seg_end = 44, reason = DVR_FREEZE, confidence = 0\<rparr>,
          \<lparr>seg_start = 100, seg_end = 104, reason = POST_LAND, confidence = 9 / 10\<rparr>] \<and>
   (\<exists>segs. detect_static_segments ex_detector ex_cfd ex_frames 110 = Inr segs \<and>
      (\<forall>s\<in>set segs. reason s =
         (if seg_start s < 30 then PRE_ARM
          else if 110 - 30 < seg_end s then POST_LAND else DVR_FREEZE))) \<and>
   (\<exists>s. detect_static_segments (StaticDetector_init settings (Some (2 / 100)) (Some 1))
           (\<lambda>a b. 1 / 100) ex_still 120 = Inr [s] \<and> reason s = PRE_ARM)"
proof -
  have ok: "0 < threshold ex_detector \<or> nonneg_diffs ex_cfd ex_frames"
    using ex_nonneg by simp
  have ts: "map frame_timestamp ex_still = [0, 1, 2, 3, 4]"
    by (simp add: ex_still_def)
  have c: "\<forall>a b :: Frame. (\<lambda>a b. 1 / 100 :: real) a b = 1 / 100" by simp
  note r = static_classification [OF ok, of 0 0 110 ex_still "\<lambda>a b. 1 / 100"]
  note r2 = r [THEN conjunct2, THEN conjunct1]
  note r3 = r [THEN conjunct2, THEN conjunct2, rule_format, OF ts c [rule_format]]
  show ?thesis
    by (intro conjI ok ts ex_static_eval r2 r3)
qed




text \<open>
  C8 (amended): the static detector returns no segment for a series of fewer than two
  samples, whatever the threshold and the minimum duration. The highlight detector
  returns no highlight for the empty series; for a series of one record it returns none
  exactly when the record is below the score threshold or the minimum duration is
  positive.
\<close>

theorem short_series_runs:
  "(length frames < 2 \<longrightarrow> detect_static_segments sd cfd frames vd = Inr []) \<and>
   detect_highlights ag [] = Inr [] \<and>
   (detect_highlights ag [fa] = Inr [] \<longleftrightarrow>
      \<not> (highlight_score_threshold ag \<le> interest_score fa \<and> highlight_min_duration ag \<le> 0)) \<and>
   (0 < highlight_min_duration ag \<longrightarrow> detect_highlights ag [fa] = Inr [])"
proof -
  have single: "detect_highlights ag [fa] = Inr [] \<longleftrightarrow>
      \<not> (highlight_score_threshold ag \<le> interest_score fa \<and> highlight_min_duration ag \<le> 0)"
    by (auto simp: detect_highlights_def highlight_loop_def highlight_finish_def
        highlight_step_def create_highlight_def py_max_key_def mk_Highlight_def Let_def
        split: sum.splits)
  then have "0 < highlight_min_duration ag \<longrightarrow> detect_highlights ag [fa] = Inr []"
    by auto
  with single show ?thesis
    by (simp add: detect_static_segments_def detect_highlights_def)
qed

theorem short_series_runs_witness:
  "length [\<lparr>frame_timestamp = 0, image_path = []\<rparr>] < 2 \<and>
   0 < highlight_min_duration ex_aggregator \<and>
   detect_static_segments ex_detector ex_cfd [\<lparr>frame_timestamp = 0, image_path = []\<rparr>] 110 = Inr [] \<and>
   detect_highlights ex_aggregator [] = Inr [] \<and>
   detect_highlights ex_aggregator [ex_record 3 8] = Inr [] \<and>
   highlight_score_threshold ex_zero_aggregator \<le> interest_score (ex_record 3 8) \<and>
   highlight_min_duration ex_zero_aggregator \<le> 0 \<and>
   detect_highlights ex_zero_aggregator [ex_record 3 8] \<noteq> Inr []"
proof -
  have l: "length [\<lparr>frame_timestamp = 0, image_path = []\<rparr>] < 2" by simp
  have m: "0 < highlight_min_duration ex_aggregator"
    by (simp add: ex_aggregator_def Aggregator_init_def settings_def py_or_def)
  have z: "highlight_score_threshold ex_zero_aggregator \<le> interest_score (ex_record 3 8)"
    "highlight_min_duration ex_zero_aggregator \<le> 0"
    by (simp_all add: ex_zero_aggregator_def Aggregator_init_def settings_def py_or_def
        ex_record_def)
  note r = short_series_runs [of "[\<lparr>frame_timestamp = 0, image_path = []\<rparr>]" ex_detector
      ex_cfd 110 ex_aggregator "ex_record 3 8"]
  note r1 = r [THEN conjunct1, rule_format, OF l]
  note r2 = r [THEN conjunct2, THEN conjunct1]
  note r4 = r [THEN conjunct2, THEN conjunct2, THEN conjunct2, rule_format, OF m]
  have r3: "detect_highlights ex_zero_aggregator [ex_record 3 8] \<noteq> Inr []"
    using short_series_runs [of "[]" ex_detector ex_cfd 110 ex_zero_aggregator "ex_record 3 8"] z
    by blast
  show ?thesis
    by (intro conjI l m r1 r2 r4 z r3)
qed

text \<open>
  C8 as stated fails for the highlight detector: with the minimum duration 0 a single
  record that reaches the score threshold is emitted as a highlight of length 0.
\<close>

theorem short_series_runs_counterexample:
  "length [ex_record 3 8] < 2 \<and>
   highlight_min_duration ex_zero_aggregator = 0 \<and>
   detect_highlights ex_zero_aggregator [ex_record 3 8] = Inr [ex_highlight 3 3 8] \<and>
   detect_highlights ex_zero_aggregator [ex_record 3 8] \<noteq> Inr []"
  by (simp add: ex_zero_eval)
    (simp add: ex_zero_aggregator_def Aggregator_init_def py_or_def)

text \<open>
  C9: on the empty record sequence tag extraction returns the empty list and quality
  assessment returns the default assessment (score 5, no issues, no artifacts detected,
  no signal-loss intervals); neither raises.
\<close>

theorem empty_records:
  "extract_tags self [] = [] \<and>
   assess_quality [] =
     Inr \<lparr>overall_score = 5, issues = [], dvr_artifacts_detected = False,
          signal_loss_segments = []\<rparr>"
  by (simp add: extract_tags_def assess_quality_def QualityMetadata_default_def)

text \<open>
  C10: every static segment that is closed by an exit sample has confidence exactly 0,
  and a segment closed by the end of the series has the fixed confidence 0.9. Each
  emitted segment belongs to a static run \<open>(i, j)\<close>; the run is closed by the exit sample
  \<open>j\<close> when \<open>j\<close> is below the length of the series, and by the end of the series
  otherwise. The detection does not raise when the threshold is positive or the
  dissimilarities are non-negative, as the frame comparison documents them.
\<close>

theorem static_exit_confidence_zero:
  assumes ok: "0 < threshold self \<or> nonneg_diffs cfd frames"
  shows "\<exists>segs. detect_static_segments self cfd frames vd = Inr segs \<and>
    (\<forall>s\<in>set segs. \<exists>i j. static_run self cfd frames i j \<and>
       seg_start s = frame_timestamp (frames ! (i - 1)) \<and>
       seg_end s = frame_timestamp (frames ! (if j < length frames then j else length frames - 1)) \<and>
       confidence s = (if j < length frames then 0 else 9 / 10))"
proof -
  from detect_static_total obtain segs where
    det: "detect_static_segments self cfd frames vd = Inr segs" by blast
  have "\<exists>i j. static_run self cfd frames i j \<and>
       seg_start s = frame_timestamp (frames ! (i - 1)) \<and>
       seg_end s = frame_timestamp (frames ! (if j < length frames then j else length frames - 1)) \<and>
       confidence s = (if j < length frames then 0 else 9 / 10)" if "s \<in> set segs" for s
  proof -
    from detect_static_emitted [OF det] that obtain i j where
      em: "static_emitted self cfd vd frames s i j" by blast
    then have run: "static_run self cfd frames i j"
      by (simp add: static_emitted_def)
    have pos: "0 < threshold self"
      using static_threshold_pos [OF ok run] .
    have "exit_confidence (pair_diff cfd frames j) (threshold self) = 0" if "j < length frames"
    proof -
      from run that have "threshold self \<le> pair_diff cfd frames j"
        unfolding static_run_def by auto
      with pos show ?thesis by (rule exit_confidence_zero)
    qed
    with em run show ?thesis
      unfolding static_emitted_def by auto
  qed
  with det show ?thesis by blast
qed

theorem static_exit_confidence_zero_witness:
  "(0 < threshold ex_detector \<or> nonneg_diffs ex_cfd ex_frames) \<and>
   detect_static_segments ex_detector ex_cfd ex_frames 110 =
     Inr [\<lparr>seg_start = 0, seg_end = 40, reason = PRE_ARM, confidence = 0\<rparr>,
          \<lparr>seg_start = 40, seg_end = 44, reason = DVR_FREEZE, confidence = 0\<rparr>,
          \<lparr>seg_start = 100, seg_end = 104, reason = POST_LAND, confidence = 9 / 10\<rparr>] \<and>
   (\<exists>segs. detect_static_segments ex_detector ex_cfd ex_frames 110 = Inr segs \<and>
    (\<forall>s\<in>set segs. \<exists>i j. static_run ex_detector ex_cfd ex_frames i j \<and>
       seg_start s = frame_timestamp (ex_frames ! (i - 1)) \<and>
       seg_end s = frame_timestamp
         (ex_frames ! (if j < length ex_frames then j else length ex_frames - 1)) \<and>
       confidence s = (if j < length ex_frames then 0 else 9 / 10)))"
proof -
  have ok: "0 < threshold ex_detector \<or> nonneg_diffs ex_cfd ex_frames"
    using ex_nonneg by simp
  show ?thesis
    using ok static_exit_confidence_zero [OF ok, of 110] ex_static_eval by blast
qed

end
